theory Spec2Isabelle
  imports Complex_Main "HOL-Library.Word" "HOL-Library.Log_Nat"
begin

unbundle bit_operations_syntax

section \<open>Machine integers\<close>

type_synonym u8 = "8 word"
type_synonym u16 = "16 word"
type_synonym u32 = "32 word"

section \<open>The arithmetic of \<open>double\<close>\<close>

text \<open>
  The program computes the compare value and the displayed frequency and period in
  \<open>double\<close>. A finite \<open>double\<close> is a rational number whose significand has \<open>p\<close> binary
  digits; every operation yields the exact result rounded to the nearest such number,
  ties to the even significand. On the board the program is written for (avr-gcc,
  Arduino Uno) \<open>double\<close> is the 32-bit format, \<open>p = 24\<close>; elsewhere it is the 64-bit
  format, \<open>p = 53\<close>. The precision is therefore a parameter of the model. The exponent
  is not bounded: the nonzero values that occur here are at most \<open>2^26\<close> and stay far
  inside the normal range of both formats.

  \<open>expo x\<close> is the binary exponent of \<open>x > 0\<close>, the \<open>e\<close> with \<open>2^e \<le> x < 2^(e+1)\<close>.
\<close>

definition expo :: "rat \<Rightarrow> int" where
  "expo x = (if 1 \<le> x then bitlen \<lfloor>x\<rfloor> - 1 else - bitlen (\<lceil>1 / x\<rceil> - 1))"

text \<open>Round to the nearest integer, ties to even.\<close>

definition rne :: "rat \<Rightarrow> int" where
  "rne y = (let f = \<lfloor>y\<rfloor>; r = y - of_int f in
            if r < 1 / 2 then f else if 1 / 2 < r then f + 1
            else if even f then f else f + 1)"

text \<open>Round a rational to \<open>p\<close> significant binary digits.\<close>

definition fl :: "nat \<Rightarrow> rat \<Rightarrow> rat" where
  "fl p x = (if x = 0 then 0
             else (let u = 2 powi (expo \<bar>x\<bar> - int p + 1) in of_int (rne (x / u)) * u))"

text \<open>
  \<open>NonFin\<close> stands for an infinity or a NaN. It arises only from a division by zero
  and is absorbed by every later operation; the program never divides by a value that
  could be infinite (every divisor is converted from an integer).
\<close>

datatype dbl = Fin rat | NonFin

fun fadd :: "nat \<Rightarrow> dbl \<Rightarrow> dbl \<Rightarrow> dbl" where
  "fadd p (Fin x) (Fin y) = Fin (fl p (x + y))"
| "fadd p _ _ = NonFin"

fun fsub :: "nat \<Rightarrow> dbl \<Rightarrow> dbl \<Rightarrow> dbl" where
  "fsub p (Fin x) (Fin y) = Fin (fl p (x - y))"
| "fsub p _ _ = NonFin"

fun fmul :: "nat \<Rightarrow> dbl \<Rightarrow> dbl \<Rightarrow> dbl" where
  "fmul p (Fin x) (Fin y) = Fin (fl p (x * y))"
| "fmul p _ _ = NonFin"

fun fdiv :: "nat \<Rightarrow> dbl \<Rightarrow> dbl \<Rightarrow> dbl" where
  "fdiv p (Fin x) (Fin y) = (if y = 0 then NonFin else Fin (fl p (x / y)))"
| "fdiv p _ _ = NonFin"

text \<open>Conversions of integers to \<open>double\<close>.\<close>

definition dbl_of_nat :: "nat \<Rightarrow> nat \<Rightarrow> dbl" where
  "dbl_of_nat p n = Fin (fl p (of_nat n))"

definition dbl_of_int :: "nat \<Rightarrow> int \<Rightarrow> dbl" where
  "dbl_of_int p i = Fin (fl p (of_int i))"

text \<open>
  The C library's \<open>round\<close>: to the nearest integer, halfway cases away from zero. Its
  result is an integer-valued \<open>double\<close>, which needs no further rounding.
\<close>

definition round_away :: "rat \<Rightarrow> int" where
  "round_away y = (if 0 \<le> y then \<lfloor>y + 1 / 2\<rfloor> else - \<lfloor>- y + 1 / 2\<rfloor>)"

fun c_round :: "dbl \<Rightarrow> dbl" where
  "c_round (Fin y) = Fin (of_int (round_away y))"
| "c_round NonFin = NonFin"

text \<open>
  The cast \<open>(uint16_t) d\<close>: the value is truncated towards zero; the behaviour is
  undefined (\<open>None\<close>) when the truncated value is not a \<open>uint16_t\<close>, and for a
  non-finite operand.
\<close>

definition trunc :: "rat \<Rightarrow> int" where
  "trunc y = (if 0 \<le> y then \<lfloor>y\<rfloor> else \<lceil>y\<rceil>)"

fun to_u16 :: "dbl \<Rightarrow> u16 option" where
  "to_u16 (Fin y) = (if 0 \<le> trunc y \<and> trunc y \<le> 65535 then Some (word_of_int (trunc y)) else None)"
| "to_u16 NonFin = None"

text \<open>The cast \<open>(long) d\<close>, likewise, to 32 bits.\<close>

fun to_long :: "dbl \<Rightarrow> int option" where
  "to_long (Fin y) =
     (if - 2147483648 \<le> trunc y \<and> trunc y \<le> 2147483647 then Some (trunc y) else None)"
| "to_long NonFin = None"

text \<open>
  The header \<open>Arduino.h\<close> of the AVR core defines \<open>round\<close> as a macro,
  \<open>((x)>=0?(long)((x)+0.5):(long)((x)-0.5))\<close>, which then stands in a sketch for the
  library function: the sum is a \<open>double\<close> operation, rounded like the others, and the
  result is a \<open>long\<close>.
\<close>

fun round_macro :: "nat \<Rightarrow> dbl \<Rightarrow> int option" where
  "round_macro p (Fin x) =
     (if 0 \<le> x then to_long (fadd p (Fin x) (Fin (1 / 2)))
      else to_long (fsub p (Fin x) (Fin (1 / 2))))"
| "round_macro p NonFin = None"

section \<open>Target, registers and global variables\<close>

text \<open>
  What the program takes from the headers and the compiler rather than from its own
  source: the precision of \<open>double\<close>, whether \<open>round\<close> is the macro of \<open>Arduino.h\<close>
  or the function of the C library, and the positions of the two compare-output bits
  in \<open>TCCR1A\<close>.
\<close>

record target =
  dbl_digits :: nat
  macro_round :: bool
  COM1A0 :: nat
  COM1B0 :: nat

text \<open>
  The Arduino Uno (ATmega328P, avr-gcc, AVR core): 32-bit \<open>double\<close>, \<open>round\<close> a macro,
  \<open>COM1A0 = 6\<close>, \<open>COM1B0 = 4\<close>.
\<close>

definition uno :: target where
  "uno = \<lparr>dbl_digits = 24, macro_round = True, COM1A0 = 6, COM1B0 = 4\<rparr>"

text \<open>
  The expression \<open>(uint16_t) (round (e))\<close>. A \<open>long\<close> is converted to \<open>uint16_t\<close>
  modulo \<open>2^16\<close>.
\<close>

definition round_u16 :: "target \<Rightarrow> dbl \<Rightarrow> u16 option" where
  "round_u16 t e =
     (if macro_round t then map_option word_of_int (round_macro (dbl_digits t) e)
      else to_u16 (c_round e))"

datatype INPUT_MODE = FREQUENCY | PERIOD

text \<open>
  What is written to the serial port: a text, or the line that
  \<open>printRegisterSettings\<close> formats from frequency, period, prescaler and \<open>OCR1A\<close>
  (the formatting of the numbers by \<open>snprintf\<close> is not modelled).
\<close>

datatype out_item = Text string | Settings dbl dbl int u16

record state =
  TCCR1A :: u8
  TCCR1B :: u8
  OCR1A :: u16
  TIMSK1 :: u8
  heartbeatEnabled :: bool
  pinOut :: u8
  freq_per :: u32
  mode :: INPUT_MODE
  serial_out :: "out_item list"
  led :: bool

definition print :: "string \<Rightarrow> state \<Rightarrow> state" where
  "print txt s = s\<lparr>serial_out := serial_out s @ [Text txt]\<rparr>"

definition println :: "string \<Rightarrow> state \<Rightarrow> state" where
  "println txt s = print (txt @ [CHR 0x0D, CHR 0x0A]) s"

section \<open>Setting frequency and period\<close>

definition setFrequency :: "target \<Rightarrow> u32 \<Rightarrow> u8 \<Rightarrow> state \<Rightarrow> state option" where
  "setFrequency t freq pin s0 =
    (let p = dbl_digits t;
         fo = (8000000 :: u32);
         pre = (1 :: u32);
         s = s0\<lparr>TCCR1A := 0\<rparr>;
         s = (if pin = 9 then s\<lparr>TCCR1A := push_bit (COM1A0 t) 1\<rparr> else s);
         s = (if pin = 10 then s\<lparr>TCCR1A := push_bit (COM1B0 t) 1\<rparr> else s);
         s = s\<lparr>TCCR1B := 0b00001001\<rparr>;
         (s, pre) = (if freq < 123 then (s\<lparr>TCCR1B := 0b00001010\<rparr>, 8) else (s, pre));
         (s, pre) = (if freq < 16 then (s\<lparr>TCCR1B := 0b00001011\<rparr>, 64) else (s, pre));
         (s, pre) = (if freq < 2 then (s\<lparr>TCCR1B := 0b00001100\<rparr>, 256) else (s, pre));
         s = (if freq < 1 then s\<lparr>TCCR1B := 0b00001101\<rparr> else s)
     in case round_u16 t (fsub p
               (fdiv p (fdiv p (dbl_of_nat p (unat fo)) (dbl_of_nat p (unat pre)))
                       (dbl_of_nat p (unat freq)))
               (Fin 1)) of
          None \<Rightarrow> None
        | Some v \<Rightarrow> Some (s\<lparr>OCR1A := v, TIMSK1 := 0\<rparr>))"

definition setPeriod :: "target \<Rightarrow> u32 \<Rightarrow> u8 \<Rightarrow> state \<Rightarrow> state" where
  "setPeriod t period pin s0 =
    (let pre = (8 :: u32);
         s = s0\<lparr>TCCR1A := 0\<rparr>;
         s = (if pin = 9 then s\<lparr>TCCR1A := push_bit (COM1A0 t) 1\<rparr> else s);
         s = (if pin = 10 then s\<lparr>TCCR1A := push_bit (COM1B0 t) 1\<rparr> else s);
         s = s\<lparr>TCCR1B := 0b00001010\<rparr>;
         (s, pre) = (if period > 65536 then (s\<lparr>TCCR1B := 0b00001011\<rparr>, 64) else (s, pre));
         (s, pre) = (if period > 524288 then (s\<lparr>TCCR1B := 0b00001100\<rparr>, 256) else (s, pre));
         (s, pre) = (if period > 2097152 then (s\<lparr>TCCR1B := 0b00001101\<rparr>, 1024) else (s, pre));
         (s, pre) = (if period = 0 then (s\<lparr>TCCR1B := 0b00001001\<rparr>, 1) else (s, pre));
         ocr_long = period * 8 div pre - 1
     in s\<lparr>OCR1A := ucast ocr_long, TIMSK1 := 0\<rparr>)"

section \<open>Reading the registers back\<close>

text \<open>The table \<open>pre[]\<close> of the three read-back functions; a read past its end is undefined.\<close>

definition pre :: "int list" where
  "pre = [0, 1, 8, 64, 256, 1024]"

definition array_read :: "'a list \<Rightarrow> nat \<Rightarrow> 'a option" where
  "array_read xs i = (if i < length xs then Some (xs ! i) else None)"

definition getFrequencyFromRegisters :: "target \<Rightarrow> state \<Rightarrow> dbl option" where
  "getFrequencyFromRegisters t s =
    (let p = dbl_digits t;
         preBits = (ucast (TCCR1B s AND 0b00000111) :: u16)
     in case array_read pre (unat preBits) of
          None \<Rightarrow> None
        | Some d \<Rightarrow>
            Some (fdiv p (fdiv p (Fin (fl p 8000000))
                                 (dbl_of_nat p (unat ((ucast (OCR1A s) :: u32) + 1))))
                         (dbl_of_int p d)))"

definition getPeriodFromRegisters :: "target \<Rightarrow> state \<Rightarrow> dbl option" where
  "getPeriodFromRegisters t s =
    (let p = dbl_digits t;
         preBits = (ucast (TCCR1B s AND 0b00000111) :: u16)
     in case array_read pre (unat preBits) of
          None \<Rightarrow> None
        | Some d \<Rightarrow>
            Some (fdiv p (fmul p (fadd p (dbl_of_nat p (unat (OCR1A s))) (dbl_of_int p 1))
                                 (dbl_of_int p d))
                         (Fin (fl p 8))))"

definition printRegisterSettings :: "target \<Rightarrow> state \<Rightarrow> state option" where
  "printRegisterSettings t s =
    (let p = dbl_digits t;
         preBits = (ucast (TCCR1B s AND 0b00000111) :: u16)
     in case array_read pre (unat preBits) of
          None \<Rightarrow> None
        | Some d \<Rightarrow>
            (let frequency = fdiv p (fdiv p (Fin (fl p 8000000))
                                   (dbl_of_nat p (unat ((ucast (OCR1A s) :: u32) + 1))))
                                   (dbl_of_int p d);
                 period = fdiv p (fmul p (fadd p (dbl_of_nat p (unat (OCR1A s))) (dbl_of_int p 1))
                                         (dbl_of_int p d))
                                 (Fin (fl p 8))
             in Some (s\<lparr>serial_out := serial_out s @ [Settings frequency period d (OCR1A s)]\<rparr>)))"

section \<open>The menu actions\<close>

text \<open>
  Each numeric action waits, then runs \<open>while (Serial.available()) v = Serial.parseInt();\<close>.
  \<open>Serial.parseInt\<close> belongs to the Arduino core, not to this program: the values it
  returns, one per turn of the loop, are an input of the model (as 32-bit patterns, the
  \<open>long\<close> it returns). The variable is \<open>None\<close> while it has never been assigned.
\<close>

fun parseLoop :: "u32 option \<Rightarrow> u32 list \<Rightarrow> u32 option" where
  "parseLoop v [] = v"
| "parseLoop v (x # xs) = parseLoop (Some x) xs"

definition toggleInputMode :: "state \<Rightarrow> state" where
  "toggleInputMode s =
    (if mode s = FREQUENCY
     then print ''Input mode set to PERIOD '' (s\<lparr>mode := PERIOD\<rparr>)
     else print ''Input mode set to FREQUENCY '' (s\<lparr>mode := FREQUENCY\<rparr>))"

definition enterValue :: "target \<Rightarrow> u32 list \<Rightarrow> state \<Rightarrow> state option" where
  "enterValue t inp s =
    (case parseLoop (Some 0) inp of
       None \<Rightarrow> None
     | Some v \<Rightarrow>
         if v < 1 \<or> v > 8000000
         then Some (print ''Value out of range, allowed: 1 .. 8'000'000 (Hz or us)'' s)
         else (case (if mode s = FREQUENCY then setFrequency t v (pinOut s) s
                     else Some (setPeriod t v (pinOut s) s)) of
                 None \<Rightarrow> None
               | Some s' \<Rightarrow> printRegisterSettings t s'))"

text \<open>
  \<open>setPrescaler\<close> and \<open>setOCR1A\<close> declare their variable (an \<open>int32_t\<close>) without a
  value: when nothing is pending on the serial port the comparison reads an
  indeterminate value, which is undefined (\<open>None\<close>).
\<close>

definition setPrescaler :: "target \<Rightarrow> u32 list \<Rightarrow> state \<Rightarrow> state option" where
  "setPrescaler t inp s =
    (case parseLoop None inp of
       None \<Rightarrow> None
     | Some preBits \<Rightarrow>
         if preBits <s 1 \<or> 5 <s preBits
         then Some (println ''Value out of range, allowed: 1 .. 5 '' s)
         else (let s = s\<lparr>TCCR1B := TCCR1B s AND 0b11111000\<rparr>;
                   s = s\<lparr>TCCR1B := TCCR1B s OR ucast preBits\<rparr>
               in printRegisterSettings t s))"

definition setOCR1A :: "target \<Rightarrow> u32 list \<Rightarrow> state \<Rightarrow> state option" where
  "setOCR1A t inp s =
    (case parseLoop None inp of
       None \<Rightarrow> None
     | Some v \<Rightarrow>
         if v <s 0 \<or> 0xffff <s v
         then Some (println ''Value out of range, allowed: 0 .. 65535 '' s)
         else printRegisterSettings t (s\<lparr>OCR1A := ucast v\<rparr>))"

definition toggleOutputPin :: "target \<Rightarrow> state \<Rightarrow> state" where
  "toggleOutputPin t s0 =
    (let s = s0\<lparr>TCCR1A := 0\<rparr>
     in if pinOut s = 9
        then print ''Output pin set to 10'' (s\<lparr>pinOut := 10, TCCR1A := push_bit (COM1B0 t) 1\<rparr>)
        else print ''Output pin set to 9'' (s\<lparr>pinOut := 9, TCCR1A := push_bit (COM1A0 t) 1\<rparr>))"

definition toggleHeartbeat :: "state \<Rightarrow> state" where
  "toggleHeartbeat s0 =
    (let s = s0\<lparr>heartbeatEnabled := \<not> heartbeatEnabled s0\<rparr>
     in if heartbeatEnabled s then print ''Heartbeat on '' s else print ''Heartbeat off '' s)"

definition showSettings :: "target \<Rightarrow> state \<Rightarrow> state option" where
  "showSettings t s = printRegisterSettings t s"

section \<open>Menu, setup and loop\<close>

datatype action =
  ToggleInputMode | EnterValue | SetPrescaler | SetOCR1A
  | ToggleOutputPin | ToggleHeartbeat | ShowSettings | ShowMenu

definition menu :: "(char \<times> string \<times> action) list" where
  "menu =
    [(CHR ''f'', ''[f] Toggle input mode frequency <--> period'', ToggleInputMode),
     (CHR ''e'', ''[e] Enter a value 1 .. 8000000 (freq or per)'', EnterValue),
     (CHR ''p'', ''[p] Enter prescaler 1=1 2=8 3=64 4=256 5=1024'', SetPrescaler),
     (CHR ''r'', ''[r] Enter OCR1A 0 .. 65535'', SetOCR1A),
     (CHR ''o'', ''[o] Toggle output pin 9 <--> 10'', ToggleOutputPin),
     (CHR ''h'', ''[h] Toggle heartbeat on <--> off'', ToggleHeartbeat),
     (CHR ''s'', ''[s] Show settings'', ShowSettings),
     (CHR ''S'', ''[S] Show menu'', ShowMenu)]"

definition showMenu :: "state \<Rightarrow> state" where
  "showMenu s0 =
    (let s = print (''\<newline>------------------------------\<newline>''
                    @ '' Timer 1 Square Wave Generator \<newline>''
                    @ ''    0.12  .. 8'000'000 Hz\<newline>''
                    @ ''------------------------------\<newline>'') s0;
         s = fold (\<lambda>(key, txt, act). println txt) menu s
     in print ''\<newline>Press a key: '' s)"

fun run_action :: "target \<Rightarrow> action \<Rightarrow> u32 list \<Rightarrow> state \<Rightarrow> state option" where
  "run_action t ToggleInputMode inp s = Some (toggleInputMode s)"
| "run_action t EnterValue inp s = enterValue t inp s"
| "run_action t SetPrescaler inp s = setPrescaler t inp s"
| "run_action t SetOCR1A inp s = setOCR1A t inp s"
| "run_action t ToggleOutputPin inp s = Some (toggleOutputPin t s)"
| "run_action t ToggleHeartbeat inp s = Some (toggleHeartbeat s)"
| "run_action t ShowSettings inp s = showSettings t s"
| "run_action t ShowMenu inp s = Some (showMenu s)"

definition CLR_LINE :: string where
  "CLR_LINE = CHR 0x0D # replicate 80 CHR '' '' @ [CHR 0x0D]"

text \<open>\<open>doMenu\<close>: the key read from the serial port selects the first entry with that key.\<close>

definition doMenu :: "target \<Rightarrow> char \<Rightarrow> u32 list \<Rightarrow> state \<Rightarrow> state option" where
  "doMenu t key inp s0 =
    (let s = print CLR_LINE s0
     in case find (\<lambda>(k, txt, act). key = k) menu of
          None \<Rightarrow> Some s
        | Some (k, txt, act) \<Rightarrow> run_action t act inp s)"

text \<open>The level that \<open>heartbeat\<close> writes to the LED, from the value of \<open>millis()\<close>.\<close>

definition heartbeat :: "u32 \<Rightarrow> u32 \<Rightarrow> u32 \<Rightarrow> bool" where
  "heartbeat millis period pulseWidth = (millis mod period < pulseWidth)"

text \<open>The initialisers of the global variables; the registers hold whatever they held.\<close>

definition globals_init :: "state \<Rightarrow> state" where
  "globals_init s =
    s\<lparr>heartbeatEnabled := True, pinOut := 9, freq_per := 1000, mode := FREQUENCY,
      serial_out := []\<rparr>"

text \<open>\<open>setup\<close> of the program (the name alone is reserved in Isabelle).\<close>

definition setup_prog :: "target \<Rightarrow> state \<Rightarrow> state option" where
  "setup_prog t s =
    (case setFrequency t (freq_per s) (pinOut s) s of
       None \<Rightarrow> None
     | Some s' \<Rightarrow> Some (showMenu s'))"

text \<open>
  One turn of \<open>loop\<close>. Its inputs: the key pending on the serial port, if any, the
  values \<open>parseInt\<close> returns to the action, and the value of \<open>millis()\<close>.
\<close>

record event =
  key :: "char option"
  parsed :: "u32 list"
  millis :: u32

definition loop :: "target \<Rightarrow> event \<Rightarrow> state \<Rightarrow> state option" where
  "loop t ev s =
    (case (case key ev of None \<Rightarrow> Some s | Some c \<Rightarrow> doMenu t c (parsed ev) s) of
       None \<Rightarrow> None
     | Some s' \<Rightarrow>
         Some (if heartbeatEnabled s' then s'\<lparr>led := heartbeat (millis ev) 1000 20\<rparr> else s'))"

text \<open>The states the program can be in between two turns of \<open>loop\<close>.\<close>

inductive reachable :: "target \<Rightarrow> state \<Rightarrow> bool" for t :: target where
  boot: "setup_prog t (globals_init s0) = Some s \<Longrightarrow> reachable t s"
| step: "reachable t s \<Longrightarrow> loop t ev s = Some s' \<Longrightarrow> reachable t s'"

section \<open>Notions used in the statements\<close>

text \<open>
  The divider that the prescaler bits of \<open>TCCR1B\<close> select: the expression
  \<open>pre[preBits]\<close> of the read-back functions.
\<close>

definition prescaler_of :: "state \<Rightarrow> int option" where
  "prescaler_of s = array_read pre (unat (ucast (TCCR1B s AND 0b00000111) :: u16))"

text \<open>
  The specification's rule for the frequency path, in its own words: the compare value
  for a prescaler is \<open>round (clockBase / prescaler / freqHz) - 1\<close>, it fits when it lies
  in \<open>[0, 65535]\<close>, and the prescaler is the first of 1, 8, 64, 256, 1024 whose compare
  value fits.
\<close>

definition spec_compare :: "int \<Rightarrow> nat \<Rightarrow> int" where
  "spec_compare prescaler freqHz = round (8000000 / rat_of_int prescaler / rat_of_nat freqHz) - 1"

definition spec_fits :: "int \<Rightarrow> nat \<Rightarrow> bool" where
  "spec_fits prescaler freqHz \<longleftrightarrow>
     0 \<le> spec_compare prescaler freqHz \<and> spec_compare prescaler freqHz \<le> 65535"

definition spec_prescaler :: "nat \<Rightarrow> int option" where
  "spec_prescaler freqHz = find (\<lambda>prescaler. spec_fits prescaler freqHz) [1, 8, 64, 256, 1024]"

text \<open>The output pin and the compare-output bit of \<open>TCCR1A\<close> agree.\<close>

definition wired :: "target \<Rightarrow> state \<Rightarrow> bool" where
  "wired t s \<longleftrightarrow>
     (pinOut s = 9 \<and> TCCR1A s = push_bit (COM1A0 t) 1)
     \<or> (pinOut s = 10 \<and> TCCR1A s = push_bit (COM1B0 t) 1)"

text \<open>
  Two concrete states for the examples: every register cleared, and the registers as
  \<open>setup\<close> leaves them on the Uno (1000 Hz on pin 9).
\<close>

definition cleared :: state where
  "cleared = \<lparr>TCCR1A = 0, TCCR1B = 0, OCR1A = 0, TIMSK1 = 0, heartbeatEnabled = True,
     pinOut = 9, freq_per = 1000, mode = FREQUENCY, serial_out = [], led = False\<rparr>"

definition at_1kHz :: state where
  "at_1kHz = \<lparr>TCCR1A = 64, TCCR1B = 9, OCR1A = 7999, TIMSK1 = 0, heartbeatEnabled = True,
     pinOut = 9, freq_per = 1000, mode = FREQUENCY, serial_out = [], led = False\<rparr>"

text \<open>
  The bound on the frequency error as the specification words it: the frequency read
  back after \<open>setFrequency\<close> differs from the requested one by at most the step
  \<open>prescaler / clockBase\<close>.
\<close>

definition spec_frequency_bound :: "target \<Rightarrow> u32 \<Rightarrow> u8 \<Rightarrow> state \<Rightarrow> bool" where
  "spec_frequency_bound t freq pin s =
    (case setFrequency t freq pin s of
       None \<Rightarrow> False
     | Some s' \<Rightarrow>
        (case (prescaler_of s', getFrequencyFromRegisters t s') of
           (Some d, Some (Fin fe)) \<Rightarrow> \<bar>fe - rat_of_nat (unat freq)\<bar> \<le> rat_of_int d / 8000000
         | _ \<Rightarrow> False))"

text \<open>
  The product of the frequency and the period read back from the registers, and the
  specification's statement that it is 1 up to a tolerance.
\<close>

definition readback_product :: "target \<Rightarrow> state \<Rightarrow> rat option" where
  "readback_product t s =
    (case (getFrequencyFromRegisters t s, getPeriodFromRegisters t s) of
       (Some (Fin fe), Some (Fin per)) \<Rightarrow> Some (fe * per)
     | _ \<Rightarrow> None)"

definition spec_reciprocal :: "target \<Rightarrow> state \<Rightarrow> rat \<Rightarrow> bool" where
  "spec_reciprocal t s tol =
    (case readback_product t s of None \<Rightarrow> False | Some q \<Rightarrow> \<bar>q - 1\<bar> \<le> tol)"


section \<open>Properties of the rounding\<close>

lemma pow2_split: "a = b + c \<Longrightarrow> (2::rat) powi a = 2 powi b * 2 powi c"
  by (simp add: power_int_add)

lemma pow2_less_imp: "(2::rat) powi a < 2 powi b \<Longrightarrow> a < b"
  using power_int_increasing [of b a "2::rat"] by (cases "a < b") auto

lemma bitlen_pos: "0 < n \<Longrightarrow> 1 \<le> bitlen n"
  using bitlen_eq_zero_iff [of n] bitlen_nonneg [of n] by linarith

lemma expo_bounds_ge1:
  assumes "1 \<le> x"
  shows "2 powi expo x \<le> x \<and> x < 2 powi (expo x + 1)"
proof -
  define n where "n = \<lfloor>x\<rfloor>"
  have n: "0 < n" using assms by (simp add: n_def)
  have e: "expo x = bitlen n - 1" using assms by (simp add: expo_def n_def)
  have b1: "1 \<le> bitlen n" using n by (rule bitlen_pos)
  from bitlen_bounds[OF n] have lo: "2 ^ nat (bitlen n - 1) \<le> n" and hi: "n < 2 ^ nat (bitlen n)"
    by auto
  have "(2::rat) powi (bitlen n - 1) = of_int (2 ^ nat (bitlen n - 1))"
    using b1 by (simp add: power_int_nonneg_exp)
  also have "\<dots> \<le> of_int n" using lo by (simp only: of_int_le_iff)
  also have "\<dots> \<le> x" by (simp add: n_def)
  finally have A: "2 powi expo x \<le> x" by (simp add: e)
  have "x < of_int (n + 1)" using floor_correct [of x] by (simp add: n_def)
  also have "\<dots> \<le> of_int (2 ^ nat (bitlen n))" using hi by (simp only: of_int_le_iff)
  also have "\<dots> = (2::rat) powi (bitlen n)" using b1 by (simp add: power_int_nonneg_exp)
  finally have B: "x < 2 powi (expo x + 1)" by (simp add: e)
  from A B show ?thesis ..
qed

lemma expo_bounds_lt1:
  assumes "0 < x" "x < 1"
  shows "2 powi expo x \<le> x \<and> x < 2 powi (expo x + 1)"
proof -
  define y where "y = 1 / x"
  define m where "m = \<lceil>y\<rceil> - 1"
  have y1: "1 < y" using assms by (simp add: y_def)
  have m: "0 < m" using y1 by (simp add: m_def less_ceiling_iff)
  have e: "expo x = - bitlen m" using assms by (simp add: expo_def m_def y_def)
  have b1: "1 \<le> bitlen m" using m by (rule bitlen_pos)
  from bitlen_bounds[OF m] have lo: "2 ^ nat (bitlen m - 1) \<le> m" and hi: "m < 2 ^ nat (bitlen m)"
    by auto
  have "(2::rat) powi (bitlen m - 1) = of_int (2 ^ nat (bitlen m - 1))"
    using b1 by (simp add: power_int_nonneg_exp)
  also have "\<dots> \<le> of_int m" using lo by (simp only: of_int_le_iff)
  also have "\<dots> < y" by (simp add: m_def) linarith
  finally have A: "2 powi (bitlen m - 1) < y" .
  have "y \<le> of_int (m + 1)" by (simp add: m_def)
  also have "\<dots> \<le> of_int (2 ^ nat (bitlen m))" using hi by (simp only: of_int_le_iff)
  also have "\<dots> = (2::rat) powi (bitlen m)" using b1 by (simp add: power_int_nonneg_exp)
  finally have B: "y \<le> 2 powi (bitlen m)" .
  have px: "0 < (2::rat) powi (bitlen m)" "0 < (2::rat) powi (bitlen m - 1)" by simp_all
  have "2 powi (- bitlen m) \<le> x"
    using B px(1) assms(1) by (simp add: y_def power_int_minus field_simps)
  moreover have "x < 2 powi (- bitlen m + 1)"
  proof -
    have "- bitlen m + 1 = - (bitlen m - 1)" by simp
    then have "(2::rat) powi (- bitlen m + 1) = inverse (2 powi (bitlen m - 1))"
      by (simp only: power_int_minus)
    moreover have "x * 2 powi (bitlen m - 1) < 1"
      using A assms(1) by (simp add: y_def field_simps)
    then have "x < 1 / 2 powi (bitlen m - 1)"
      using px(2) by (simp add: pos_less_divide_eq)
    ultimately show ?thesis by (simp add: inverse_eq_divide)
  qed
  ultimately show ?thesis by (simp add: e)
qed

lemma expo_bounds:
  assumes "0 < x"
  shows "2 powi expo x \<le> x" and "x < 2 powi (expo x + 1)"
  using expo_bounds_ge1 [of x] expo_bounds_lt1 [of x] assms by (cases "1 \<le> x"; simp)+

lemma expo_unique:
  assumes "2 powi e \<le> x" "x < 2 powi (e + 1)"
  shows "expo x = e"
proof -
  have x: "0 < x" using assms(1) zero_less_power_int [of "2::rat" e] by linarith
  note b = expo_bounds [OF x]
  have "(2::rat) powi e < 2 powi (expo x + 1)" using assms(1) b(2) by linarith
  then have 1: "e < expo x + 1"
    using power_int_increasing [of "expo x + 1" e "2::rat"] by (cases "e < expo x + 1") auto
  have "(2::rat) powi expo x < 2 powi (e + 1)" using assms(2) b(1) by linarith
  then have 2: "expo x < e + 1"
    using power_int_increasing [of "e + 1" "expo x" "2::rat"] by (cases "expo x < e + 1") auto
  from 1 2 show ?thesis by linarith
qed

lemma expo_scale:
  assumes "0 < x"
  shows "expo (x * 2 powi k) = expo x + k"
proof (rule expo_unique)
  note b = expo_bounds [OF assms]
  have p: "0 < (2::rat) powi k" by simp
  show "2 powi (expo x + k) \<le> x * 2 powi k"
    using b(1) p by (simp add: power_int_add)
  have "x * 2 powi k < 2 powi (expo x + 1) * 2 powi k"
    using b(2) p by (simp only: mult_strict_right_mono)
  then show "x * 2 powi k < 2 powi (expo x + k + 1)"
    by (simp add: power_int_add mult_ac)
qed

lemma rne_of_int [simp]: "rne (of_int m) = m"
  by (simp add: rne_def)

lemma rne_err: "\<bar>of_int (rne y) - y\<bar> \<le> 1 / 2"
proof -
  define f where "f = \<lfloor>y\<rfloor>"
  have "rat_of_int f \<le> y" "y < rat_of_int f + 1"
    using floor_correct [of y] by (simp_all add: f_def)
  then have "\<bar>of_int (if y - of_int f < 1/2 then f else if 1/2 < y - of_int f then f + 1
            else if even f then f else f + 1) - y\<bar> \<le> 1 / 2"
    by (auto simp: abs_if)
  then show ?thesis
    unfolding rne_def Let_def f_def .
qed

lemma rne_minus: "rne (- y) = - rne y"
proof (cases "y \<in> \<int>")
  case True
  then obtain k where "y = of_int k" by (auto elim: Ints_cases)
  then have "- y = of_int (- k)" by simp
  then show ?thesis unfolding \<open>y = of_int k\<close> by (simp only: rne_of_int)
next
  case False
  define f where "f = \<lfloor>y\<rfloor>"
  have ne: "y \<noteq> rat_of_int f"
    using False Ints_of_int by metis
  then have fl: "\<lfloor>- y\<rfloor> = - f - 1"
    by (simp add: f_def floor_minus ceiling_altdef)
  note ne
  moreover have "rat_of_int f \<le> y" "y < rat_of_int f + 1"
    using floor_correct [of y] by (simp_all add: f_def)
  ultimately
  have "(let f' = - f - 1; r = - y - of_int f' in
            if r < 1/2 then f' else if 1/2 < r then f' + 1
            else if even f' then f' else f' + 1)
       = - (let r = y - of_int f in
            if r < 1/2 then f else if 1/2 < r then f + 1
            else if even f then f else f + 1)"
    by (auto simp: Let_def)
  then show ?thesis
    unfolding rne_def fl unfolding f_def Let_def .
qed

lemma rne_ge_int: "of_int a \<le> y \<Longrightarrow> a \<le> rne y"
proof -
  assume "of_int a \<le> y"
  then have "a \<le> \<lfloor>y\<rfloor>" by (simp add: le_floor_iff)
  moreover have "\<lfloor>y\<rfloor> \<le> rne y" by (simp add: rne_def Let_def)
  ultimately show ?thesis by linarith
qed

lemma rne_le_int: "y \<le> of_int b \<Longrightarrow> rne y \<le> b"
  using rne_ge_int [of "- b" "- y"] by (simp add: rne_minus)

lemma fl_0 [simp]: "fl p 0 = 0"
  by (simp add: fl_def)

lemma fl_minus: "fl p (- x) = - fl p x"
  by (simp add: fl_def rne_minus Let_def)

text \<open>Representable values are fixed points of the rounding.\<close>

lemma fl_exact_pos:
  assumes m: "0 < m" "m < 2 ^ p"
  shows "fl p (of_int m * 2 powi k) = of_int m * 2 powi k"
proof -
  define x :: rat where "x = of_int m * 2 powi k"
  have x: "0 < x" using m(1) by (simp add: x_def)
  note b = expo_bounds [OF x]
  have "rat_of_int m < rat_of_int (2 ^ p)"
    using m(2) by (simp only: of_int_less_iff)
  then have "rat_of_int m < 2 ^ p" by simp
  then have "x < 2 ^ p * 2 powi k"
    unfolding x_def by (rule mult_strict_right_mono) simp
  then have "(2::rat) powi expo x < 2 powi (int p + k)"
    using b(1) by (simp add: power_int_add)
  then have ek: "expo x < int p + k"
    using power_int_increasing [of "int p + k" "expo x" "2::rat"] by (cases "expo x < int p + k") auto
  define e where "e = expo x - int p + 1"
  define j where "j = nat (k - e)"
  have j: "k = e + int j" using ek by (simp add: j_def e_def)
  have xe: "x = of_int m * (2 powi e * 2 ^ j)"
    by (simp add: x_def j power_int_add)
  have "x / 2 powi e = of_int (m * 2 ^ j)"
    by (simp add: xe)
  then have "of_int (rne (x / 2 powi e)) * 2 powi e = x"
    by (simp only: rne_of_int) (simp add: xe)
  then show ?thesis
    using x unfolding x_def [symmetric] e_def by (simp add: fl_def Let_def)
qed

lemma fl_exact_nat:
  assumes "n < 2 ^ p"
  shows "fl p (of_nat n) = of_nat n"
proof (cases "n = 0")
  case True
  then show ?thesis by simp
next
  case False
  then have "0 < int n" by simp
  moreover have "int n < int (2 ^ p)" using assms by (simp only: of_nat_less_iff)
  then have "int n < 2 ^ p" by simp
  ultimately have "fl p (rat_of_int (int n) * 2 powi 0) = rat_of_int (int n) * 2 powi 0"
    by (rule fl_exact_pos)
  then show ?thesis by simp
qed

lemma fl_err:
  assumes "0 < x"
  shows "\<bar>fl p x - x\<bar> \<le> x / 2 ^ p"
proof -
  define u :: rat where "u = 2 powi (expo x - int p + 1)"
  have u: "0 < u" by (simp add: u_def)
  have f: "fl p x = of_int (rne (x / u)) * u"
    using assms by (simp add: fl_def Let_def u_def)
  have "fl p x - x = (of_int (rne (x / u)) - x / u) * u"
    using u by (simp add: f field_simps)
  then have "\<bar>fl p x - x\<bar> = \<bar>of_int (rne (x / u)) - x / u\<bar> * u"
    using u by (simp add: abs_mult)
  also have "\<dots> \<le> 1 / 2 * u"
    using rne_err [of "x / u"] u by (intro mult_right_mono) simp_all
  also have "\<dots> = 2 powi expo x / 2 ^ p"
    by (simp add: u_def power_int_add power_int_diff)
  also have "\<dots> \<le> x / 2 ^ p"
    using expo_bounds(1) [OF assms] by (simp add: divide_right_mono)
  finally show ?thesis .
qed

text \<open>The rounded value lies on the grid of its binade.\<close>

lemma fl_grid:
  assumes "0 < x" "0 < p"
  obtains m where "fl p x = of_int m * 2 powi (expo x - int p + 1)"
    and "2 ^ (p - 1) \<le> m" and "m \<le> 2 ^ p"
proof -
  define u :: rat where "u = 2 powi (expo x - int p + 1)"
  define m where "m = rne (x / u)"
  have u: "0 < u" by (simp add: u_def)
  have f: "fl p x = of_int m * u"
    using assms by (simp add: fl_def Let_def u_def m_def)
  note b = expo_bounds [OF assms(1)]
  have pe: "2 powi expo x = 2 ^ (p - 1) * u"
  proof -
    have "expo x = int (p - 1) + (expo x - int p + 1)" using assms(2) by simp
    then have "(2::rat) powi expo x = 2 powi (int (p - 1)) * 2 powi (expo x - int p + 1)"
      by (rule pow2_split)
    then show ?thesis by (simp add: u_def)
  qed
  have pe1: "2 powi (expo x + 1) = 2 ^ p * u"
  proof -
    have "expo x + 1 = int p + (expo x - int p + 1)" by simp
    then have "(2::rat) powi (expo x + 1) = 2 powi (int p) * 2 powi (expo x - int p + 1)"
      by (rule pow2_split)
    then show ?thesis by (simp add: u_def)
  qed
  have lo: "rat_of_int (2 ^ (p - 1)) \<le> x / u"
    using b(1) u by (simp add: pe pos_le_divide_eq)
  have hi: "x / u \<le> rat_of_int (2 ^ p)"
    using b(2) u by (simp add: pe1 pos_divide_le_eq)
  have m1: "2 ^ (p - 1) \<le> m"
    unfolding m_def using lo by (rule rne_ge_int)
  have m2: "m \<le> 2 ^ p"
    unfolding m_def using hi by (rule rne_le_int)
  from f have "fl p x = of_int m * 2 powi (expo x - int p + 1)"
    unfolding u_def .
  then show thesis using m1 m2 by (rule that)
qed

lemma fl_ge_pow:
  assumes "0 < x" "0 < p"
  shows "2 powi expo x \<le> fl p x"
proof -
  obtain m where m: "fl p x = of_int m * 2 powi (expo x - int p + 1)" "2 ^ (p - 1) \<le> m"
    using fl_grid [OF assms] by blast
  have "expo x = int (p - 1) + (expo x - int p + 1)" using assms(2) by simp
  then have "(2::rat) powi expo x = 2 powi (int (p - 1)) * 2 powi (expo x - int p + 1)"
    by (rule pow2_split)
  also have "\<dots> = rat_of_int (2 ^ (p - 1)) * 2 powi (expo x - int p + 1)" by simp
  also have "\<dots> \<le> rat_of_int m * 2 powi (expo x - int p + 1)"
    using m(2) by (intro mult_right_mono) (simp_all only: of_int_le_iff zero_le_power_int zero_le_numeral)
  finally show ?thesis by (simp add: m(1))
qed

lemma expo_nonneg: "1 \<le> x \<Longrightarrow> 0 \<le> expo x"
  using bitlen_pos [of "\<lfloor>x\<rfloor>"] by (simp add: expo_def)

lemma fl_ge_1:
  assumes "1 \<le> x" "0 < p"
  shows "1 \<le> fl p x"
proof -
  have "(1::rat) \<le> 2 powi expo x"
    using expo_nonneg [OF assms(1)] by (simp add: power_int_nonneg_exp)
  also have "\<dots> \<le> fl p x" using assms by (intro fl_ge_pow) simp_all
  finally show ?thesis .
qed

text \<open>Subtracting 1.0 from a rounded value of at least 1 (below \<open>2^p\<close>) is exact.\<close>

lemma fl_sub_one:
  assumes "1 \<le> x" "x < 2 ^ p" "0 < p"
  shows "fl p (fl p x - 1) = fl p x - 1"
proof -
  have x: "0 < x" using assms(1) by simp
  obtain m where m: "fl p x = of_int m * 2 powi (expo x - int p + 1)" "m \<le> 2 ^ p"
    using fl_grid [OF x assms(3)] by blast
  have e0: "0 \<le> expo x" using assms(1) by (rule expo_nonneg)
  have "(2::rat) powi expo x < 2 powi (int p)"
    using expo_bounds(1) [OF x] assms(2) by simp
  then have ep: "expo x < int p"
    using power_int_increasing [of "int p" "expo x" "2::rat"] by (cases "expo x < int p") auto
  define j where "j = nat (int p - 1 - expo x)"
  have j: "int j + (expo x - int p + 1) = 0" using ep by (simp add: j_def)
  have "(2::rat) powi 0 = 2 powi (int j) * 2 powi (expo x - int p + 1)"
    by (rule pow2_split) (simp add: j)
  then have one: "(1::rat) = rat_of_int (2 ^ j) * 2 powi (expo x - int p + 1)" by simp
  have d: "fl p x - 1 = rat_of_int (m - 2 ^ j) * 2 powi (expo x - int p + 1)"
    by (subst one) (simp add: m(1) algebra_simps)
  have "1 \<le> fl p x" using assms(1,3) by (rule fl_ge_1)
  then have "0 \<le> fl p x - 1" by simp
  then have "0 \<le> rat_of_int (m - 2 ^ j) * 2 powi (expo x - int p + 1)"
    unfolding d .
  moreover have "0 < (2::rat) powi (expo x - int p + 1)" by simp
  ultimately have "0 \<le> rat_of_int (m - 2 ^ j)"
    by (simp only: zero_le_mult_iff) linarith
  then have m0: "0 \<le> m - 2 ^ j"
    by (simp only: of_int_0_le_iff)
  have "(0::int) < 2 ^ j" by simp
  then have m1: "m - 2 ^ j < 2 ^ p" using m(2) by linarith
  show ?thesis
  proof (cases "m - 2 ^ j = 0")
    case True
    then show ?thesis by (simp add: d)
  next
    case False
    with m0 have "0 < m - 2 ^ j" by linarith
    from fl_exact_pos [OF this m1] show ?thesis by (simp only: d)
  qed
qed

text \<open>So is subtracting 0.5, when the value is below \<open>2^(p-1)\<close>.\<close>

lemma fl_sub_half:
  assumes "1 \<le> x" "2 * x < 2 ^ p" "0 < p"
  shows "fl p (fl p x - 1 / 2) = fl p x - 1 / 2"
proof -
  have x: "0 < x" using assms(1) by simp
  obtain m where m: "fl p x = of_int m * 2 powi (expo x - int p + 1)" "m \<le> 2 ^ p"
    using fl_grid [OF x assms(3)] by blast
  have "(2::rat) powi (expo x + 1) = 2 powi expo x * 2 powi 1"
    by (rule pow2_split) simp
  also have "\<dots> \<le> 2 * x" using expo_bounds(1) [OF x] by simp
  also have "\<dots> < 2 powi (int p)" using assms(2) by simp
  finally have ep: "expo x + 1 < int p" by (rule pow2_less_imp)
  define j where "j = nat (int p - 2 - expo x)"
  have j: "int j + (expo x - int p + 1) = - 1" using ep by (simp add: j_def)
  have "(2::rat) powi (- 1) = 2 powi (int j) * 2 powi (expo x - int p + 1)"
    by (rule pow2_split) (simp add: j)
  then have half: "(1 / 2 :: rat) = rat_of_int (2 ^ j) * 2 powi (expo x - int p + 1)"
    by (simp add: inverse_eq_divide)
  have d: "fl p x - 1 / 2 = rat_of_int (m - 2 ^ j) * 2 powi (expo x - int p + 1)"
    by (subst half) (simp add: m(1) algebra_simps)
  have "1 \<le> fl p x" using assms(1,3) by (rule fl_ge_1)
  then have "0 < fl p x - 1 / 2" by simp
  then have "0 < rat_of_int (m - 2 ^ j) * 2 powi (expo x - int p + 1)"
    unfolding d .
  moreover have "0 < (2::rat) powi (expo x - int p + 1)" by simp
  ultimately have "0 < rat_of_int (m - 2 ^ j)"
    by (simp only: zero_less_mult_iff) linarith
  then have m0: "0 < m - 2 ^ j"
    by (simp only: of_int_0_less_iff)
  have "(0::int) < 2 ^ j" by simp
  then have m1: "m - 2 ^ j < 2 ^ p" using m(2) by linarith
  from fl_exact_pos [OF m0 m1] show ?thesis by (simp only: d)
qed

lemma fl_scale: "fl p (x * 2 powi k) = fl p x * 2 powi k"
proof (cases "x = 0")
  case True
  then show ?thesis by simp
next
  case False
  then have "0 < \<bar>x\<bar>" by simp
  then have "expo (\<bar>x\<bar> * 2 powi k) = expo \<bar>x\<bar> + k" by (rule expo_scale)
  then have e: "expo \<bar>x * 2 powi k\<bar> = expo \<bar>x\<bar> + k" by (simp add: abs_mult)
  have "x * 2 powi k / 2 powi (expo \<bar>x\<bar> + k - int p + 1) = x / 2 powi (expo \<bar>x\<bar> - int p + 1)"
  proof -
    have "(2::rat) powi (expo \<bar>x\<bar> + k - int p + 1) = 2 powi k * 2 powi (expo \<bar>x\<bar> - int p + 1)"
      by (rule pow2_split) simp
    then show ?thesis by simp
  qed
  moreover have "(2::rat) powi (expo \<bar>x\<bar> + k - int p + 1) = 2 powi (expo \<bar>x\<bar> - int p + 1) * 2 powi k"
    by (rule pow2_split) simp
  ultimately show ?thesis
    using False by (simp add: fl_def Let_def e)
qed

lemma round_fl_div:
  fixes N f :: nat
  assumes f: "0 < f" "f \<le> N" and N: "2 * N < 2 ^ p"
  shows "round_away (fl p (of_nat N / of_nat f) - 1) = round_away (of_nat N / of_nat f) - 1"
proof -
  define x :: rat where "x = of_nat N / of_nat f"
  define q where "q = fl p x"
  define k where "k = \<lfloor>x + 1 / 2\<rfloor>"
  define F :: rat where "F = of_nat f"
  define d :: rat where "d = 1 / (2 * F)"
  have F: "0 < F" using f(1) by (simp add: F_def)
  have d: "0 < d" using F by (simp add: d_def)
  have xF: "x * F = of_nat N" using F by (simp add: x_def F_def)
  have p: "0 < p" using N f by (cases p) auto
  have x1: "1 \<le> x" using f by (simp add: x_def)
  then have x0: "0 < x" by simp
  have q1: "1 \<le> q" unfolding q_def using x1 p by (rule fl_ge_1)
  have "rat_of_nat (2 * N) < rat_of_nat (2 ^ p)" using N by (simp only: of_nat_less_iff)
  then have N2: "2 * rat_of_nat N < 2 ^ p" by simp
  have "x / 2 ^ p < d"
  proof -
    have "x * (2 * F) = 2 * (x * F)" by simp
    then have "x * (2 * F) < 2 ^ p" using N2 by (simp only: xF)
    then show ?thesis using F by (simp add: d_def field_simps)
  qed
  moreover have "\<bar>q - x\<bar> \<le> x / 2 ^ p" unfolding q_def using x0 by (rule fl_err)
  ultimately have err: "x - d < q" "q < x + d" by linarith+
  have kb: "of_int k \<le> x + 1 / 2" "x + 1 / 2 < of_int k + 1"
    using floor_correct [of "x + 1 / 2"] by (simp_all add: k_def)
  have k1: "1 \<le> k" using x1 by (simp add: k_def le_floor_iff)
  \<comment> \<open>upper bound\<close>
  have F2: "0 < 2 * F" using F by simp
  have dF: "d * (2 * F) = 1" using F by (simp add: d_def)
  have "2 * x < 2 * of_int k + 1" using kb(2) by simp
  then have "(2 * x) * F < (2 * of_int k + 1) * F" using F by (rule mult_strict_right_mono)
  then have "2 * (x * F) < (2 * of_int k + 1) * F" by (simp only: mult.assoc)
  then have "2 * rat_of_nat N < (2 * of_int k + 1) * F" by (simp only: xF)
  then have "rat_of_int (2 * int N) < rat_of_int ((2 * k + 1) * int f)"
    by (simp add: F_def)
  then have "2 * int N < (2 * k + 1) * int f" by (simp only: of_int_less_iff)
  then have "2 * int N + 1 \<le> (2 * k + 1) * int f" by linarith
  then have "rat_of_int (2 * int N + 1) \<le> rat_of_int ((2 * k + 1) * int f)"
    by (simp only: of_int_le_iff)
  then have A: "2 * (x * F) + 1 \<le> (2 * of_int k + 1) * F"
    by (simp add: F_def xF [unfolded F_def])
  have "(x + d) * (2 * F) = 2 * (x * F) + 1"
    by (simp add: distrib_right dF)
  also note A
  also have "(2 * of_int k + 1) * F = (of_int k + 1 / 2) * (2 * F)"
    by (simp add: algebra_simps)
  finally have "(x + d) * (2 * F) \<le> (of_int k + 1 / 2) * (2 * F)" .
  then have "x + d \<le> of_int k + 1 / 2"
    using F2 by (simp only: mult_le_cancel_right_pos)
  with err(2) have up: "q < of_int k + 1 / 2" by linarith
  \<comment> \<open>lower bound\<close>
  have "2 * of_int k - 1 \<le> 2 * x" using kb(1) by simp
  then have "(2 * of_int k - 1) * F \<le> (2 * x) * F" using F by (intro mult_right_mono) simp_all
  then have "(2 * of_int k - 1) * F \<le> 2 * (x * F)" by (simp only: mult.assoc)
  then have "(2 * of_int k - 1) * F \<le> 2 * rat_of_nat N" by (simp only: xF)
  then have "rat_of_int ((2 * k - 1) * int f) \<le> rat_of_int (2 * int N)"
    by (simp add: F_def)
  then have le: "(2 * k - 1) * int f \<le> 2 * int N" by (simp only: of_int_le_iff)
  have lo: "of_int k - 1 / 2 \<le> q"
  proof (cases "(2 * k - 1) * int f = 2 * int N")
    case True
    then have "rat_of_int ((2 * k - 1) * int f) = rat_of_int (2 * int N)" by simp
    then have "(2 * of_int k - 1) * F = 2 * (x * F)" by (simp add: F_def xF [unfolded F_def])
    then have "(2 * of_int k - 1) * F = (2 * x) * F" by (simp only: mult.assoc)
    then have "2 * of_int k - 1 = 2 * x" using F by simp
    then have xk: "x = rat_of_int (2 * k - 1) * 2 powi (- 1)" by simp
    have "0 < 2 * k - 1" using k1 by simp
    moreover have "2 * k - 1 < 2 ^ p"
    proof -
      have "(2 * k - 1) * 1 \<le> (2 * k - 1) * int f"
        using f(1) k1 by (intro mult_left_mono) simp_all
      also have "\<dots> = 2 * int N" by (rule True)
      also have "\<dots> = int (2 * N)" by simp
      also have "\<dots> < int (2 ^ p)" using N by (simp only: of_nat_less_iff)
      finally show ?thesis by simp
    qed
    ultimately have "fl p x = x" unfolding xk by (rule fl_exact_pos)
    then show ?thesis using kb(1) by (simp add: q_def)
  next
    case False
    with le have "(2 * k - 1) * int f + 1 \<le> 2 * int N" by linarith
    then have "rat_of_int ((2 * k - 1) * int f + 1) \<le> rat_of_int (2 * int N)"
      by (simp only: of_int_le_iff)
    then have "(2 * of_int k - 1) * F + 1 \<le> 2 * (x * F)"
      by (simp add: F_def xF [unfolded F_def])
    then have B: "(2 * of_int k - 1) * F \<le> 2 * (x * F) - 1" by simp
    have "(of_int k - 1 / 2) * (2 * F) = (2 * of_int k - 1) * F"
      by (simp add: algebra_simps)
    also note B
    also have "2 * (x * F) - 1 = (x - d) * (2 * F)"
      by (simp add: left_diff_distrib dF)
    finally have "(of_int k - 1 / 2) * (2 * F) \<le> (x - d) * (2 * F)" .
    then have "of_int k - 1 / 2 \<le> x - d"
      using F2 by (simp only: mult_le_cancel_right_pos)
    with err(1) show ?thesis by linarith
  qed
  have "\<lfloor>q - 1 + 1 / 2\<rfloor> = k - 1"
    using lo up by (intro floor_unique) simp_all
  moreover have "0 \<le> q - 1" using q1 by simp
  moreover have "0 \<le> x" using x0 by simp
  ultimately show ?thesis
    unfolding round_away_def x_def [symmetric] q_def [symmetric] by (simp add: k_def)
qed

lemma fl_idem: 
  assumes "0 < p"
  shows "fl p (fl p x) = fl p x"
proof -
  have pos: "fl p (fl p y) = fl p y" if y: "0 < y" for y
  proof -
    obtain m where m: "fl p y = of_int m * 2 powi (expo y - int p + 1)"
      "2 ^ (p - 1) \<le> m" "m \<le> 2 ^ p"
      using fl_grid [OF y assms] by blast
    have m0: "0 < m" using m(2) zero_less_power [of "2::int" "p - 1"] by linarith
    show ?thesis
    proof (cases "m < 2 ^ p")
      case True
      with m0 show ?thesis unfolding m(1) by (rule fl_exact_pos)
    next
      case False
      with m(3) have "m = 2 ^ p" by simp
      moreover have "(2::rat) powi (expo y + 1) = 2 powi (int p) * 2 powi (expo y - int p + 1)"
        by (rule pow2_split) simp
      ultimately have "fl p y = of_int 1 * 2 powi (expo y + 1)"
        by (simp add: m(1))
      moreover have "(1::int) < 2 ^ p" using assms by simp
      then have "fl p (of_int 1 * 2 powi (expo y + 1)) = of_int 1 * 2 powi (expo y + 1)"
        by (intro fl_exact_pos) simp_all
      ultimately show ?thesis by simp
    qed
  qed
  consider "x = 0" | "0 < x" | "0 < - x" by linarith
  then show ?thesis
  proof cases
    case 1
    then show ?thesis by simp
  next
    case 2
    then show ?thesis by (rule pos)
  next
    case 3
    from pos [OF this] show ?thesis by (simp add: fl_minus)
  qed
qed

lemma fl_mult_pow2: "fl p (x * 2 ^ j) = fl p x * 2 ^ j"
  using fl_scale [of p x "int j"] by simp

lemma fl_div_pow2: "fl p (x / 2 ^ j) = fl p x / 2 ^ j"
  using fl_scale [of p x "- int j"] by (simp add: power_int_minus divide_inverse)

lemma fl_scale_numerals:
  "fl p (x * 8) = fl p x * 8"
  "fl p (x * 64) = fl p x * 64"
  "fl p (x * 256) = fl p x * 256"
  "fl p (x * 1024) = fl p x * 1024"
  "fl p (x / 8) = fl p x / 8"
  "fl p (x / 64) = fl p x / 64"
  "fl p (x / 256) = fl p x / 256"
  "fl p (x / 1024) = fl p x / 1024"
  using fl_mult_pow2 [of p x 3] fl_mult_pow2 [of p x 6] fl_mult_pow2 [of p x 8]
    fl_mult_pow2 [of p x 10] fl_div_pow2 [of p x 3] fl_div_pow2 [of p x 6]
    fl_div_pow2 [of p x 8] fl_div_pow2 [of p x 10]
  by simp_all

lemma pow24_le: "24 \<le> p \<Longrightarrow> (16777216::nat) \<le> 2 ^ p"
  using power_increasing [of 24 p "2::nat"] by simp

lemma fl_exact_small: "24 \<le> p \<Longrightarrow> n < 16777216 \<Longrightarrow> fl p (of_nat n) = of_nat n"
  using pow24_le [of p] by (intro fl_exact_nat) linarith

lemma fl_numeral_small:
  "24 \<le> p \<Longrightarrow> numeral k < (16777216::nat) \<Longrightarrow> fl p (numeral k) = numeral k"
  using fl_exact_small [of p "numeral k"] by simp

lemma fl_one [simp]: "24 \<le> p \<Longrightarrow> fl p 1 = 1"
  using fl_exact_small [of p 1] by simp

lemma unsigned_rat_nonneg: "0 \<le> (unsigned (w :: 'a::len word) :: rat)"
proof -
  have "0 \<le> rat_of_nat (unat w)" by (simp only: of_nat_0_le_iff)
  then show ?thesis by simp
qed

lemma fl_succ_u16:
  assumes "24 \<le> p"
  shows "fl p ((unsigned (w :: u16) :: rat) + 1) = unsigned w + 1"
proof -
  have "unat w < 65536" using unsigned_less [of w] by simp
  then have "Suc (unat w) < 16777216" by simp
  with assms have "fl p (of_nat (Suc (unat w))) = of_nat (Suc (unat w))"
    by (rule fl_exact_small)
  then show ?thesis by (simp add: add.commute)
qed

lemma fl_succ_u16_scaled:
  assumes "24 \<le> p"
  shows "fl p ((unsigned (w :: u16) :: rat) * 8 + 8) = unsigned w * 8 + 8"
    "fl p ((unsigned w :: rat) * 64 + 64) = unsigned w * 64 + 64"
    "fl p ((unsigned w :: rat) * 256 + 256) = unsigned w * 256 + 256"
    "fl p ((unsigned w :: rat) * 1024 + 1024) = unsigned w * 1024 + 1024"
  using fl_scale_numerals(1-4) [of p "unsigned w + 1"] fl_succ_u16 [OF assms, of w]
  by simp_all

section \<open>The frequency path\<close>

lemma dbl_of_nat_small: "24 \<le> p \<Longrightarrow> n < 16777216 \<Longrightarrow> dbl_of_nat p n = Fin (of_nat n)"
  by (simp add: dbl_of_nat_def fl_exact_small)

lemma trunc_of_int [simp]: "trunc (of_int k) = k"
  by (simp add: trunc_def)

lemma round_away_nonneg: "0 \<le> y \<Longrightarrow> round_away y = round y"
  by (simp add: round_away_def round_def)

lemma round_div_bounds:
  fixes N f :: nat
  assumes f: "0 < f" "f \<le> N" and hi: "2 * N < 131073 * f"
  shows "1 \<le> round (rat_of_nat N / rat_of_nat f)"
    and "round (rat_of_nat N / rat_of_nat f) \<le> 65536"
proof -
  define x :: rat where "x = of_nat N / of_nat f"
  have x1: "1 \<le> x" using f by (simp add: x_def)
  then show "1 \<le> round (rat_of_nat N / rat_of_nat f)"
    by (simp add: x_def round_def le_floor_iff)
  have "rat_of_nat (2 * N) < rat_of_nat (131073 * f)"
    using hi by (simp only: of_nat_less_iff)
  then have "2 * rat_of_nat N < 131073 * rat_of_nat f" by simp
  then have "x + 1 / 2 < 65537"
    using f(1) by (simp add: x_def field_simps)
  then show "round (rat_of_nat N / rat_of_nat f) \<le> 65536"
    by (simp add: x_def round_def floor_le_iff)
qed

text \<open>
  The compare-value expression of \<open>setFrequency\<close>, for a quotient \<open>N / f\<close> that is at
  least 1 and rounds to at most 65536: with either \<open>round\<close>, the \<open>double\<close> computation
  yields the exactly rounded quotient, less one.
\<close>

lemma ocr_expr:
  fixes N f :: nat
  assumes p: "24 \<le> dbl_digits t" and f: "0 < f" "f \<le> N" and N: "N \<le> 8000000"
    and hi: "2 * N < 131073 * f"
  shows "round_u16 t (fsub (dbl_digits t)
            (fdiv (dbl_digits t) (Fin (of_nat N)) (dbl_of_nat (dbl_digits t) f)) (Fin 1))
         = Some (word_of_int (round (rat_of_nat N / rat_of_nat f) - 1))"
proof -
  define p where "p = dbl_digits t"
  define x :: rat where "x = of_nat N / of_nat f"
  have p24: "24 \<le> p" using p by (simp add: p_def)
  have x1: "1 \<le> x" using f by (simp add: x_def)
  have p0: "0 < p" using p24 by simp
  have fs: "f < 16777216" using f N by linarith
  have N2: "2 * N < 2 ^ p" using pow24_le [OF p24] N by linarith
  have xN: "x \<le> of_nat N"
  proof -
    have "1 \<le> rat_of_nat f" using f(1) by simp
    then have "x \<le> of_nat N / 1" unfolding x_def by (intro divide_left_mono) simp_all
    then show ?thesis by simp
  qed
  have "2 * x \<le> rat_of_nat (2 * N)" using xN by simp
  also have "\<dots> < rat_of_nat (2 ^ p)" using N2 by (simp only: of_nat_less_iff)
  finally have x2: "2 * x < 2 ^ p" by simp
  then have xp: "x < 2 ^ p" using x1 by linarith
  have d: "fdiv p (Fin (of_nat N)) (dbl_of_nat p f) = Fin (fl p x)"
    using f(1) by (simp add: dbl_of_nat_small [OF p24 fs] x_def)
  have s: "fl p (fl p x - 1) = fl p x - 1"
    using x1 xp p0 by (rule fl_sub_one)
  have q1: "1 \<le> fl p x" using x1 p0 by (rule fl_ge_1)
  have r: "round_away (fl p x - 1) = round x - 1"
    using round_fl_div [OF f N2] x1 by (simp add: x_def round_away_nonneg)
  have r12: "1 \<le> round x" "round x \<le> 65536"
    using round_div_bounds [OF f hi] by (simp_all add: x_def)
  have e: "fsub p (fdiv p (Fin (of_nat N)) (dbl_of_nat p f)) (Fin 1) = Fin (fl p x - 1)"
    by (simp add: d s)
  have lib: "to_u16 (c_round (Fin (fl p x - 1))) = Some (word_of_int (round x - 1))"
  proof -
    have t: "trunc (rat_of_int (round x) - 1) = round x - 1"
      using trunc_of_int [of "round x - 1"] by simp
    show ?thesis
      using r12 by (simp add: r t)
  qed
  have mac: "round_macro p (Fin (fl p x - 1)) = Some (round x - 1)"
  proof -
    have "fl p x - 1 + 1 / 2 = fl p x - 1 / 2" by simp
    then have h: "fl p (fl p x - 1 + 1 / 2) = fl p x - 1 / 2"
      using fl_sub_half [OF x1 x2 p0] by (simp only:)
    have "0 \<le> fl p x - 1 / 2" using q1 by simp
    then have "trunc (fl p x - 1 / 2) = \<lfloor>fl p x - 1 + 1 / 2\<rfloor>"
      by (simp add: trunc_def)
    also have "\<dots> = round_away (fl p x - 1)"
      using q1 by (simp add: round_away_def)
    finally have t: "trunc (fl p x - 1 / 2) = round x - 1" by (simp only: r)
    show ?thesis
      using q1 r12 by (simp add: h fl_sub_half [OF x1 x2 p0] t)
  qed
  have "round_u16 t (Fin (fl p x - 1)) = Some (word_of_int (round x - 1))"
    unfolding round_u16_def p_def [symmetric]
    by (simp only: lib mac option.map if_cancel)
  then show ?thesis
    unfolding p_def [symmetric] x_def [symmetric] e .
qed

lemma fo_div_pre:
  assumes "24 \<le> p"
  shows "fdiv p (dbl_of_nat p 8000000) (dbl_of_nat p (Suc 0)) = Fin 8000000"
    and "fdiv p (dbl_of_nat p 8000000) (dbl_of_nat p 8) = Fin 1000000"
    and "fdiv p (dbl_of_nat p 8000000) (dbl_of_nat p 64) = Fin 125000"
    and "fdiv p (dbl_of_nat p 8000000) (dbl_of_nat p 256) = Fin 31250"
  using assms by (simp_all add: dbl_of_nat_small fl_numeral_small)

lemma setFrequency_pre1:
  assumes "24 \<le> dbl_digits t" "123 \<le> freq" "freq \<le> 8000000"
  shows "setFrequency t freq pin s =
    Some (s\<lparr>TCCR1A := (if pin = 10 then push_bit (COM1B0 t) 1
                        else if pin = 9 then push_bit (COM1A0 t) 1 else 0),
            TCCR1B := 0b00001001,
            OCR1A := word_of_int (round (8000000 / rat_of_nat (unat freq)) - 1),
            TIMSK1 := 0\<rparr>)"
proof -
  have f: "123 \<le> unat freq" "unat freq \<le> 8000000"
    using assms(2,3) by (simp_all add: word_le_nat_alt)
  have c: "\<not> freq < 123" "\<not> freq < 16" "\<not> freq < 2" "freq \<noteq> 0"
    using f(1) by (auto simp add: word_less_nat_alt)
  have "round_u16 t (fsub (dbl_digits t) (fdiv (dbl_digits t) (Fin (of_nat 8000000)) (dbl_of_nat (dbl_digits t) (unat freq))) (Fin 1))
         = Some (word_of_int (round (rat_of_nat 8000000 / rat_of_nat (unat freq)) - 1))"
    using assms(1) f by (intro ocr_expr) simp_all
  then show ?thesis
    unfolding setFrequency_def Let_def
    by (simp add: c fo_div_pre [OF assms(1)])
qed

lemma setFrequency_pre8:
  assumes "24 \<le> dbl_digits t" "16 \<le> freq" "freq < 123"
  shows "setFrequency t freq pin s =
    Some (s\<lparr>TCCR1A := (if pin = 10 then push_bit (COM1B0 t) 1
                        else if pin = 9 then push_bit (COM1A0 t) 1 else 0),
            TCCR1B := 0b00001010,
            OCR1A := word_of_int (round (1000000 / rat_of_nat (unat freq)) - 1),
            TIMSK1 := 0\<rparr>)"
proof -
  have f: "16 \<le> unat freq" "unat freq < 123"
    using assms(2,3) by (simp_all add: word_le_nat_alt word_less_nat_alt)
  have c: "freq < 123" "\<not> freq < 16" "\<not> freq < 2" "freq \<noteq> 0"
    using f by (auto simp add: word_less_nat_alt)
  have "round_u16 t (fsub (dbl_digits t) (fdiv (dbl_digits t) (Fin (of_nat 1000000)) (dbl_of_nat (dbl_digits t) (unat freq))) (Fin 1))
         = Some (word_of_int (round (rat_of_nat 1000000 / rat_of_nat (unat freq)) - 1))"
    using assms(1) f by (intro ocr_expr) simp_all
  then show ?thesis
    unfolding setFrequency_def Let_def
    by (simp add: c fo_div_pre [OF assms(1)])
qed

lemma setFrequency_pre64:
  assumes "24 \<le> dbl_digits t" "2 \<le> freq" "freq < 16"
  shows "setFrequency t freq pin s =
    Some (s\<lparr>TCCR1A := (if pin = 10 then push_bit (COM1B0 t) 1
                        else if pin = 9 then push_bit (COM1A0 t) 1 else 0),
            TCCR1B := 0b00001011,
            OCR1A := word_of_int (round (125000 / rat_of_nat (unat freq)) - 1),
            TIMSK1 := 0\<rparr>)"
proof -
  have f: "2 \<le> unat freq" "unat freq < 16"
    using assms(2,3) by (simp_all add: word_le_nat_alt word_less_nat_alt)
  have c: "freq < 123" "freq < 16" "\<not> freq < 2" "freq \<noteq> 0"
    using f by (auto simp add: word_less_nat_alt)
  have "round_u16 t (fsub (dbl_digits t) (fdiv (dbl_digits t) (Fin (of_nat 125000)) (dbl_of_nat (dbl_digits t) (unat freq))) (Fin 1))
         = Some (word_of_int (round (rat_of_nat 125000 / rat_of_nat (unat freq)) - 1))"
    using assms(1) f by (intro ocr_expr) simp_all
  then show ?thesis
    unfolding setFrequency_def Let_def
    by (simp add: c fo_div_pre [OF assms(1)])
qed

lemma setFrequency_pre256:
  assumes "24 \<le> dbl_digits t" "1 \<le> freq" "freq < 2"
  shows "setFrequency t freq pin s =
    Some (s\<lparr>TCCR1A := (if pin = 10 then push_bit (COM1B0 t) 1
                        else if pin = 9 then push_bit (COM1A0 t) 1 else 0),
            TCCR1B := 0b00001100,
            OCR1A := word_of_int (round (31250 / rat_of_nat (unat freq)) - 1),
            TIMSK1 := 0\<rparr>)"
proof -
  have f: "1 \<le> unat freq" "unat freq < 2"
    using assms(2,3) by (simp_all add: word_le_nat_alt word_less_nat_alt)
  have c: "freq < 123" "freq < 16" "freq < 2" "freq \<noteq> 0"
    using f by (auto simp add: word_less_nat_alt)
  have "round_u16 t (fsub (dbl_digits t) (fdiv (dbl_digits t) (Fin (of_nat 31250)) (dbl_of_nat (dbl_digits t) (unat freq))) (Fin 1))
         = Some (word_of_int (round (rat_of_nat 31250 / rat_of_nat (unat freq)) - 1))"
    using assms(1) f by (intro ocr_expr) simp_all
  then show ?thesis
    unfolding setFrequency_def Let_def
    by (simp add: c fo_div_pre [OF assms(1)])
qed

lemma round_div_ge:
  fixes N f :: nat
  assumes "0 < f" "131073 * f \<le> 2 * N"
  shows "65537 \<le> round (rat_of_nat N / rat_of_nat f)"
proof -
  have "rat_of_nat (131073 * f) \<le> rat_of_nat (2 * N)"
    using assms(2) by (simp only: of_nat_le_iff)
  then have "131073 * rat_of_nat f \<le> 2 * rat_of_nat N" by simp
  then have "65537 \<le> rat_of_nat N / rat_of_nat f + 1 / 2"
    using assms(1) by (simp add: field_simps)
  then show ?thesis
    by (simp add: round_def le_floor_iff)
qed

lemma spec_fits_iff:
  "spec_fits 1 f \<longleftrightarrow> 1 \<le> round (rat_of_nat 8000000 / rat_of_nat f) \<and> round (rat_of_nat 8000000 / rat_of_nat f) \<le> 65536"
  "spec_fits 8 f \<longleftrightarrow> 1 \<le> round (rat_of_nat 1000000 / rat_of_nat f) \<and> round (rat_of_nat 1000000 / rat_of_nat f) \<le> 65536"
  "spec_fits 64 f \<longleftrightarrow> 1 \<le> round (rat_of_nat 125000 / rat_of_nat f) \<and> round (rat_of_nat 125000 / rat_of_nat f) \<le> 65536"
  "spec_fits 256 f \<longleftrightarrow> 1 \<le> round (rat_of_nat 31250 / rat_of_nat f) \<and> round (rat_of_nat 31250 / rat_of_nat f) \<le> 65536"
  by (auto simp add: spec_fits_def spec_compare_def)

text \<open>The specification's prescaler in each of the four ranges of the frequency.\<close>

lemma spec_prescaler_1:
  assumes "123 \<le> f" "f \<le> 8000000"
  shows "spec_prescaler f = Some 1"
proof -
  have "spec_fits 1 f"
    unfolding spec_fits_iff
    using round_div_bounds [of f 8000000] assms by simp
  then show ?thesis by (simp add: spec_prescaler_def)
qed

lemma spec_prescaler_8:
  assumes "16 \<le> f" "f < 123"
  shows "spec_prescaler f = Some 8"
proof -
  have "\<not> spec_fits 1 f"
    unfolding spec_fits_iff
    using round_div_ge [of f 8000000] assms by simp
  moreover have "spec_fits 8 f"
    unfolding spec_fits_iff
    using round_div_bounds [of f 1000000] assms by simp
  ultimately show ?thesis by (simp add: spec_prescaler_def)
qed

lemma spec_prescaler_64:
  assumes "2 \<le> f" "f < 16"
  shows "spec_prescaler f = Some 64"
proof -
  have "\<not> spec_fits 1 f"
    unfolding spec_fits_iff
    using round_div_ge [of f 8000000] assms by simp
  moreover have "\<not> spec_fits 8 f"
    unfolding spec_fits_iff
    using round_div_ge [of f 1000000] assms by simp
  moreover have "spec_fits 64 f"
    unfolding spec_fits_iff
    using round_div_bounds [of f 125000] assms by simp
  ultimately show ?thesis by (simp add: spec_prescaler_def)
qed

lemma spec_prescaler_256:
  assumes "1 \<le> f" "f < 2"
  shows "spec_prescaler f = Some 256"
proof -
  have "\<not> spec_fits 1 f"
    unfolding spec_fits_iff
    using round_div_ge [of f 8000000] assms by simp
  moreover have "\<not> spec_fits 8 f"
    unfolding spec_fits_iff
    using round_div_ge [of f 1000000] assms by simp
  moreover have "\<not> spec_fits 64 f"
    unfolding spec_fits_iff
    using round_div_ge [of f 125000] assms by simp
  moreover have "spec_fits 256 f"
    unfolding spec_fits_iff
    using round_div_bounds [of f 31250] assms by simp
  ultimately show ?thesis by (simp add: spec_prescaler_def)
qed

lemma uno_digits: "24 \<le> dbl_digits uno"
  by (simp add: uno_def)

section \<open>The period path\<close>

lemma period_ocr:
  fixes period :: u32
  assumes "1 \<le> unat period" "unat period * 8 < 4294967296" "0 < d" "d \<le> 1024"
    "d \<le> unat period * 8" "unat period * 8 div d \<le> 65536"
  shows "unat (ucast (period * 8 div (of_nat d) - 1 :: u32) :: u16) = unat period * 8 div d - 1"
proof -
  have m: "unat (period * 8) = unat period * 8"
    using assms(2) by (simp add: unat_word_ariths)
  have dd: "unat (of_nat d :: u32) = d"
    using assms(4) by (simp add: unat_of_nat)
  have q: "unat (period * 8 div of_nat d) = unat period * 8 div d"
    by (simp add: unat_div m dd)
  have q1: "1 \<le> unat period * 8 div d"
    using assms(3,5) by (simp add: Suc_le_eq div_greater_zero_iff)
  then have "1 \<le> period * 8 div of_nat d"
    by (simp add: word_le_nat_alt q)
  then have "unat (period * 8 div of_nat d - 1) = unat period * 8 div d - 1"
    by (simp add: unat_sub q)
  moreover have "unat period * 8 div d - 1 < 65536" using assms(6) q1 by linarith
  ultimately show ?thesis
    by (simp add: unsigned_ucast_eq take_bit_nat_eq_self)
qed

lemma period_ocr_int:
  fixes period :: u32
  assumes "1 \<le> unat period" "unat period * 8 < 4294967296" "0 < d" "d \<le> 1024"
    "d \<le> unat period * 8" "unat period * 8 div d \<le> 65536"
  shows "uint (ucast (period * 8 div (of_nat d) - 1 :: u32) :: u16) = uint period * 8 div int d - 1"
    and "0 \<le> uint period * 8 div int d - 1" and "uint period * 8 div int d - 1 \<le> 65535"
proof -
  have q1: "1 \<le> unat period * 8 div d"
    using assms(3,5) by (simp add: Suc_le_eq div_greater_zero_iff)
  have e: "uint period * 8 div int d = int (unat period * 8 div d)"
    by (simp add: zdiv_int)
  have "uint (ucast (period * 8 div (of_nat d) - 1 :: u32) :: u16)
        = int (unat (ucast (period * 8 div (of_nat d) - 1 :: u32) :: u16))"
    by simp
  also have "\<dots> = int (unat period * 8 div d - 1)"
    by (simp only: period_ocr [OF assms])
  also have "\<dots> = uint period * 8 div int d - 1"
    using q1 by (simp add: e of_nat_diff)
  finally show "uint (ucast (period * 8 div (of_nat d) - 1 :: u32) :: u16) = uint period * 8 div int d - 1" .
  show "0 \<le> uint period * 8 div int d - 1" using q1 by (simp add: e)
  show "uint period * 8 div int d - 1 \<le> 65535" using assms(6) by (simp add: e)
qed

lemma setPeriod_pre8:
  assumes "1 \<le> period" "period \<le> 65536"
  shows "setPeriod t period pin s =
    s\<lparr>TCCR1A := (if pin = 10 then push_bit (COM1B0 t) 1
                  else if pin = 9 then push_bit (COM1A0 t) 1 else 0),
      TCCR1B := 0b00001010,
      OCR1A := ucast (period * 8 div 8 - 1),
      TIMSK1 := 0\<rparr>"
proof -
  have f: "1 \<le> unat period" "unat period \<le> 65536"
    using assms by (simp_all add: word_le_nat_alt)
  have c: "\<not> period > 65536" "\<not> period > 524288" "\<not> period > 2097152" "period \<noteq> 0"
    using f by (auto simp add: word_less_nat_alt)
  show ?thesis
    unfolding setPeriod_def Let_def by (simp add: c)
qed

lemma setPeriod_pre64:
  assumes "65536 < period" "period \<le> 524288"
  shows "setPeriod t period pin s =
    s\<lparr>TCCR1A := (if pin = 10 then push_bit (COM1B0 t) 1
                  else if pin = 9 then push_bit (COM1A0 t) 1 else 0),
      TCCR1B := 0b00001011,
      OCR1A := ucast (period * 8 div 64 - 1),
      TIMSK1 := 0\<rparr>"
proof -
  have f: "65536 < unat period" "unat period \<le> 524288"
    using assms by (simp_all add: word_le_nat_alt word_less_nat_alt)
  have c: "period > 65536" "\<not> period > 524288" "\<not> period > 2097152" "period \<noteq> 0"
    using f by (auto simp add: word_less_nat_alt)
  show ?thesis
    unfolding setPeriod_def Let_def by (simp add: c)
qed

lemma setPeriod_pre256:
  assumes "524288 < period" "period \<le> 2097152"
  shows "setPeriod t period pin s =
    s\<lparr>TCCR1A := (if pin = 10 then push_bit (COM1B0 t) 1
                  else if pin = 9 then push_bit (COM1A0 t) 1 else 0),
      TCCR1B := 0b00001100,
      OCR1A := ucast (period * 8 div 256 - 1),
      TIMSK1 := 0\<rparr>"
proof -
  have f: "524288 < unat period" "unat period \<le> 2097152"
    using assms by (simp_all add: word_le_nat_alt word_less_nat_alt)
  have c: "period > 65536" "period > 524288" "\<not> period > 2097152" "period \<noteq> 0"
    using f by (auto simp add: word_less_nat_alt)
  show ?thesis
    unfolding setPeriod_def Let_def by (simp add: c)
qed

lemma setPeriod_pre1024:
  assumes "2097152 < period"
  shows "setPeriod t period pin s =
    s\<lparr>TCCR1A := (if pin = 10 then push_bit (COM1B0 t) 1
                  else if pin = 9 then push_bit (COM1A0 t) 1 else 0),
      TCCR1B := 0b00001101,
      OCR1A := ucast (period * 8 div 1024 - 1),
      TIMSK1 := 0\<rparr>"
proof -
  have f: "2097152 < unat period"
    using assms by (simp_all add: word_le_nat_alt word_less_nat_alt)
  have c: "period > 65536" "period > 524288" "period > 2097152" "period \<noteq> 0"
    using f by (auto simp add: word_less_nat_alt)
  show ?thesis
    unfolding setPeriod_def Let_def by (simp add: c)
qed

section \<open>Reading the registers back: values\<close>

lemma prescaler_of_simps:
  "TCCR1B s = 0b00001001 \<Longrightarrow> prescaler_of s = Some 1"
  "TCCR1B s = 0b00001010 \<Longrightarrow> prescaler_of s = Some 8"
  "TCCR1B s = 0b00001011 \<Longrightarrow> prescaler_of s = Some 64"
  "TCCR1B s = 0b00001100 \<Longrightarrow> prescaler_of s = Some 256"
  "TCCR1B s = 0b00001101 \<Longrightarrow> prescaler_of s = Some 1024"
  by (simp_all add: prescaler_of_def array_read_def pre_def)

lemma prescaler_of_SomeD:
  assumes "prescaler_of s = Some d"
  shows "array_read pre (unat (ucast (TCCR1B s AND 0b00000111) :: u16)) = Some d"
  using assms by (simp add: prescaler_of_def)

lemma unat_ucast_succ: "unat ((ucast (w :: u16) :: u32) + 1) = Suc (unat w)"
proof -
  have "unat w < 65536" using unsigned_less [of w] by simp
  then show ?thesis
    by (simp add: unat_word_ariths unsigned_ucast_eq take_bit_nat_eq_self)
qed

lemma getPeriod_exact:
  assumes "24 \<le> dbl_digits t" "prescaler_of s = Some d" "d \<in> {1, 8, 64, 256, 1024}"
  shows "getPeriodFromRegisters t s = Some (Fin ((rat_of_nat (unat (OCR1A s)) + 1) * of_int d / 8))"
proof -
  have "unat (OCR1A s) < 65536" using unsigned_less [of "OCR1A s"] by simp
  then have n: "unat (OCR1A s) < 16777216" by simp
  note [simp] = dbl_of_nat_small [OF assms(1) n] fl_succ_u16 [OF assms(1)] fl_numeral_small [OF assms(1)]
    fl_one [OF assms(1)] fl_scale_numerals fl_succ_u16_scaled [OF assms(1)]
  from assms(3) show ?thesis
    unfolding getPeriodFromRegisters_def Let_def prescaler_of_SomeD [OF assms(2)]
    by (auto simp add: dbl_of_int_def)
qed

lemma getFrequency_value:
  assumes "24 \<le> dbl_digits t" "prescaler_of s = Some d" "d \<in> {1, 8, 64, 256, 1024}"
  shows "getFrequencyFromRegisters t s =
    Some (Fin (fl (dbl_digits t) (8000000 / (rat_of_nat (unat (OCR1A s)) + 1)) / of_int d))"
proof -
  define p where "p = dbl_digits t"
  define n :: rat where "n = rat_of_nat (unat (OCR1A s)) + 1"
  define Y where "Y = fl p (8000000 / n)"
  have p: "24 \<le> p" using assms(1) by (simp add: p_def)
  have "unat (OCR1A s) < 65536" using unsigned_less [of "OCR1A s"] by simp
  then have m: "Suc (unat (OCR1A s)) < 16777216" by simp
  have p0: "0 < p" using p by simp
  have nz: "n \<noteq> 0"
    using unsigned_rat_nonneg [of "OCR1A s"] by (simp add: n_def)
  have a: "dbl_of_nat p (unat ((ucast (OCR1A s) :: u32) + 1)) = Fin n"
    by (simp add: unat_ucast_succ dbl_of_nat_small [OF p m] n_def)
  have b: "fdiv p (Fin (fl p 8000000)) (Fin n) = Fin Y"
    using nz by (simp add: fl_numeral_small [OF p] Y_def)
  have c: "fdiv p (Fin Y) (dbl_of_int p d) = Fin (Y / of_int d)"
    using assms(3)
    by (auto simp add: dbl_of_int_def fl_numeral_small [OF p] fl_one [OF p] fl_scale_numerals
        Y_def fl_idem [OF p0])
  show ?thesis
    unfolding getFrequencyFromRegisters_def Let_def prescaler_of_SomeD [OF assms(2)]
      p_def [symmetric]
    by (simp only: option.case a b c) (simp add: Y_def n_def)
qed

lemma freq_path_core:
  fixes N f :: nat and d :: int
  assumes p: "24 \<le> dbl_digits t" and f: "0 < f" "f \<le> N" and N: "N \<le> 8000000"
    and hi: "2 * N < 131073 * f" and Nd: "int N * d = 8000000"
    and d: "d \<in> {1, 8, 64, 256, 1024}" and pr: "prescaler_of s' = Some d"
    and ocr: "OCR1A s' = word_of_int (round (rat_of_nat N / rat_of_nat f) - 1)"
  shows "uint (OCR1A s') = spec_compare d f \<and> 0 \<le> spec_compare d f \<and> spec_compare d f \<le> 65535
       \<and> (\<exists>per. getPeriodFromRegisters t s' = Some (Fin per)
              \<and> \<bar>per - 1000000 / rat_of_nat f\<bar> \<le> rat_of_int d / 8 / 2)"
proof -
  define x :: rat where "x = rat_of_nat N / rat_of_nat f"
  have d0: "0 < d" using d by auto
  have "rat_of_int (int N * d) = rat_of_int 8000000" using Nd by simp
  then have Nd': "rat_of_nat N * rat_of_int d = 8000000" by simp
  then have "8000000 / rat_of_int d = rat_of_nat N"
    using d0 by (simp add: field_simps)
  then have sc: "spec_compare d f = round x - 1"
    by (simp add: spec_compare_def x_def)
  have r: "1 \<le> round x" "round x \<le> 65536"
    using round_div_bounds [OF f hi] by (simp_all add: x_def)
  have u: "uint (OCR1A s') = round x - 1"
  proof (rule word_of_int_inverse)
    show "word_of_int (round x - 1) = OCR1A s'" by (simp only: ocr x_def)
    show "0 \<le> round x - 1" using r by simp
    show "round x - 1 < 2 ^ LENGTH(16)" using r by simp
  qed
  then have n: "rat_of_nat (unat (OCR1A s')) + 1 = rat_of_int (round x)"
  proof -
    have "rat_of_int (uint (OCR1A s')) = rat_of_int (round x - 1)" by (simp only: u)
    then show ?thesis by simp
  qed
  define per where "per = rat_of_int (round x) * rat_of_int d / 8"
  have g: "getPeriodFromRegisters t s' = Some (Fin per)"
    by (simp only: getPeriod_exact [OF p pr d] n per_def)
  have xd: "x * rat_of_int d / 8 = 1000000 / rat_of_nat f"
  proof -
    have "x * rat_of_int d = 8000000 / rat_of_nat f"
      using Nd' by (simp add: x_def mult.commute)
    then show ?thesis by simp
  qed
  have eq: "per - 1000000 / rat_of_nat f = (rat_of_int (round x) - x) * (rat_of_int d / 8)"
    by (simp add: per_def xd [symmetric] algebra_simps)
  have "0 \<le> rat_of_int d / 8" using d0 by simp
  then have "\<bar>per - 1000000 / rat_of_nat f\<bar> = \<bar>rat_of_int (round x) - x\<bar> * (rat_of_int d / 8)"
    by (simp only: eq abs_mult abs_of_nonneg)
  also have "\<dots> \<le> 1 / 2 * (rat_of_int d / 8)"
    using of_int_round_abs_le [of x] d0 by (intro mult_right_mono) simp_all
  finally have b: "\<bar>per - 1000000 / rat_of_nat f\<bar> \<le> rat_of_int d / 8 / 2" by simp
  have "uint (OCR1A s') = spec_compare d f" by (simp only: u sc)
  moreover have "0 \<le> spec_compare d f" "spec_compare d f \<le> 65535"
    using r by (simp_all add: sc)
  ultimately show ?thesis using g b by blast
qed

section \<open>The menu actions keep pin and compare-output bit in agreement\<close>

lemma parseLoop_last: "inp \<noteq> [] \<Longrightarrow> parseLoop v inp = Some (last inp)"
  by (induction inp arbitrary: v) auto

lemma print_fields [simp]:
  "TCCR1A (print txt s) = TCCR1A s" "TCCR1B (print txt s) = TCCR1B s"
  "OCR1A (print txt s) = OCR1A s" "TIMSK1 (print txt s) = TIMSK1 s"
  "pinOut (print txt s) = pinOut s" "mode (print txt s) = mode s"
  "heartbeatEnabled (print txt s) = heartbeatEnabled s"
  "serial_out (print txt s) = serial_out s @ [Text txt]"
  by (simp_all add: print_def)

lemma println_fields [simp]:
  "TCCR1A (println txt s) = TCCR1A s" "TCCR1B (println txt s) = TCCR1B s"
  "OCR1A (println txt s) = OCR1A s" "TIMSK1 (println txt s) = TIMSK1 s"
  "pinOut (println txt s) = pinOut s" "mode (println txt s) = mode s"
  "heartbeatEnabled (println txt s) = heartbeatEnabled s"
  by (simp_all add: println_def)

lemma wired_print [simp]: "wired t (print txt s) = wired t s"
  by (simp add: wired_def)

lemma wired_println [simp]: "wired t (println txt s) = wired t s"
  by (simp add: wired_def)

lemma wired_serial_out [simp]: "wired t (s\<lparr>serial_out := x\<rparr>) = wired t s"
  by (simp add: wired_def)

lemma wired_led [simp]: "wired t (s\<lparr>led := x\<rparr>) = wired t s"
  by (simp add: wired_def)

lemma setFrequency_pins:
  assumes "setFrequency t f pin s = Some s'"
  shows "pinOut s' = pinOut s
    \<and> TCCR1A s' = (if pin = 10 then push_bit (COM1B0 t) 1
                    else if pin = 9 then push_bit (COM1A0 t) 1 else 0)"
  using assms unfolding setFrequency_def Let_def
  by (auto split: option.splits if_splits)

lemma setPeriod_pins:
  "pinOut (setPeriod t v pin s) = pinOut s
    \<and> TCCR1A (setPeriod t v pin s) = (if pin = 10 then push_bit (COM1B0 t) 1
                    else if pin = 9 then push_bit (COM1A0 t) 1 else 0)"
  unfolding setPeriod_def Let_def
  by (auto split: if_splits)

lemma printRegisterSettings_wired:
  "printRegisterSettings t s = Some s' \<Longrightarrow> wired t s' = wired t s"
  unfolding printRegisterSettings_def Let_def
  by (auto split: option.splits)

lemma enterValue_wired:
  assumes "wired t s" "enterValue t inp s = Some s'"
  shows "wired t s'"
proof -
  have w: "wired t x" if "pinOut x = pinOut s"
    "TCCR1A x = (if pinOut s = 10 then push_bit (COM1B0 t) 1
                 else if pinOut s = 9 then push_bit (COM1A0 t) 1 else 0)" for x
    using assms(1) that by (auto simp: wired_def)
  show ?thesis
    using assms(2) assms(1) unfolding enterValue_def
    by (auto split: option.splits if_splits
        dest!: setFrequency_pins printRegisterSettings_wired
        simp: w setPeriod_pins)
qed

lemma setPrescaler_wired:
  assumes "wired t s" "setPrescaler t inp s = Some s'"
  shows "wired t s'"
proof -
  have "wired t (s\<lparr>TCCR1B := x\<rparr>)" for x
    using assms(1) by (simp add: wired_def)
  then show ?thesis
    using assms unfolding setPrescaler_def Let_def
    by (auto split: option.splits if_splits dest!: printRegisterSettings_wired)
qed

lemma setOCR1A_wired:
  assumes "wired t s" "setOCR1A t inp s = Some s'"
  shows "wired t s'"
proof -
  have "wired t (s\<lparr>OCR1A := x\<rparr>)" for x
    using assms(1) by (simp add: wired_def)
  then show ?thesis
    using assms unfolding setOCR1A_def
    by (auto split: option.splits if_splits dest!: printRegisterSettings_wired)
qed

lemma toggleOutputPin_wired: "wired t (toggleOutputPin t s)"
  by (simp add: toggleOutputPin_def wired_def Let_def)

lemma toggleInputMode_wired: "wired t (toggleInputMode s) = wired t s"
  by (simp add: toggleInputMode_def wired_def)

lemma toggleHeartbeat_wired: "wired t (toggleHeartbeat s) = wired t s"
  by (simp add: toggleHeartbeat_def wired_def Let_def)

lemma showMenu_wired: "wired t (showMenu s) = wired t s"
  by (simp add: showMenu_def menu_def Let_def)

lemma run_action_wired:
  assumes "wired t s" "run_action t act inp s = Some s'"
  shows "wired t s'"
  using assms
  by (cases act)
    (auto simp: toggleOutputPin_wired toggleInputMode_wired toggleHeartbeat_wired
      showMenu_wired showSettings_def
      dest: enterValue_wired setPrescaler_wired setOCR1A_wired printRegisterSettings_wired)

lemma doMenu_wired:
  assumes "wired t s" "doMenu t c inp s = Some s'"
  shows "wired t s'"
proof (cases "find (\<lambda>(k, txt, act). c = k) menu")
  case None
  with assms show ?thesis by (auto simp: doMenu_def)
next
  case (Some a)
  obtain k tx act where a: "a = (k, tx, act)" by (cases a)
  from assms(2) have "run_action t act inp (print CLR_LINE s) = Some s'"
    by (simp add: doMenu_def Some a)
  moreover have "wired t (print CLR_LINE s)" using assms(1) by simp
  ultimately show ?thesis by (rule run_action_wired [rotated])
qed

lemma loop_wired:
  assumes "wired t s" "loop t ev s = Some s'"
  shows "wired t s'"
  using assms unfolding loop_def
  by (auto split: option.splits if_splits dest: doMenu_wired)

lemma setup_wired:
  assumes "setup_prog t (globals_init s0) = Some s"
  shows "wired t s"
proof -
  from assms obtain x where x: "setFrequency t 1000 9 (globals_init s0) = Some x" "s = showMenu x"
    unfolding setup_prog_def by (auto split: option.splits simp: globals_init_def)
  from setFrequency_pins [OF x(1)] have "wired t x"
    by (simp add: wired_def globals_init_def)
  then show ?thesis by (simp add: x(2) showMenu_wired)
qed

lemma reachable_wired: "reachable t s \<Longrightarrow> wired t s"
  by (induction rule: reachable.induct) (auto intro: setup_wired loop_wired)

lemma find_menu_e: "find (\<lambda>(k, tx, act). CHR ''e'' = k) menu
  = Some (CHR ''e'', ''[e] Enter a value 1 .. 8000000 (freq or per)'', EnterValue)"
  by (simp add: menu_def)

section \<open>The claims\<close>

text \<open>
  C1: for every frequency in \<open>[1, 8000000]\<close>, \<open>setFrequency\<close> selects the smallest
  prescaler of 1, 8, 64, 256, 1024 whose compare value
  \<open>round (clockBase / prescaler / freq) - 1\<close> fits in \<open>[0, 65535]\<close>: prescaler 1 for
  \<open>freq \<ge> 123\<close>, 8 for \<open>16 \<le> freq < 123\<close>, 64 for \<open>2 \<le> freq < 16\<close> and 256 for
  \<open>1 \<le> freq < 2\<close>. The instances after it give the boundary: 122 selects prescaler
  8, 123 selects prescaler 1.
\<close>

theorem C1_setFrequency_prescaler:
  assumes "24 \<le> dbl_digits t" "1 \<le> freq" "freq \<le> 8000000"
  shows "\<exists>s' d. setFrequency t freq pin s = Some s' \<and> prescaler_of s' = Some d
           \<and> d = (if 123 \<le> freq then 1 else if 16 \<le> freq then 8
                   else if 2 \<le> freq then 64 else 256)
           \<and> spec_prescaler (unat freq) = Some d"
proof -
  consider "123 \<le> freq" | "16 \<le> freq" "freq < 123" | "2 \<le> freq" "freq < 16" | "freq < 2"
    by (meson not_le)
  then show ?thesis
  proof cases
    case 1
    then have f: "123 \<le> unat freq" "unat freq \<le> 8000000"
      using assms(3) by (simp_all add: word_le_nat_alt)
    show ?thesis
      using 1 spec_prescaler_1 [OF f]
      by (simp add: setFrequency_pre1 [OF assms(1) 1 assms(3)] prescaler_of_simps)
  next
    case 2
    then have f: "16 \<le> unat freq" "unat freq < 123"
      by (simp_all add: word_le_nat_alt word_less_nat_alt)
    have "\<not> 123 \<le> freq" using 2(2) by simp
    then show ?thesis
      using 2 spec_prescaler_8 [OF f]
      by (simp add: setFrequency_pre8 [OF assms(1) 2] prescaler_of_simps)
  next
    case 3
    then have f: "2 \<le> unat freq" "unat freq < 16"
      by (simp_all add: word_le_nat_alt word_less_nat_alt)
    have "\<not> 123 \<le> freq" "\<not> 16 \<le> freq"
      using f(2) by (simp_all add: word_le_nat_alt)
    then show ?thesis
      using 3 spec_prescaler_64 [OF f]
      by (simp add: setFrequency_pre64 [OF assms(1) 3] prescaler_of_simps)
  next
    case 4
    then have f: "1 \<le> unat freq" "unat freq < 2"
      using assms(2) by (simp_all add: word_le_nat_alt word_less_nat_alt)
    have "\<not> 123 \<le> freq" "\<not> 16 \<le> freq" "\<not> 2 \<le> freq"
      using f(2) by (simp_all add: word_le_nat_alt)
    then show ?thesis
      using 4 spec_prescaler_256 [OF f]
      by (simp add: setFrequency_pre256 [OF assms(1,2) 4] prescaler_of_simps)
  qed
qed

theorem C1_witness:
  "24 \<le> dbl_digits uno \<and> (1 :: u32) \<le> 122 \<and> (122 :: u32) \<le> 8000000
   \<and> (\<exists>s'. setFrequency uno 122 9 cleared = Some s' \<and> prescaler_of s' = Some 8
            \<and> spec_prescaler 122 = Some 8)
   \<and> (1 :: u32) \<le> 123 \<and> (123 :: u32) \<le> 8000000
   \<and> (\<exists>s'. setFrequency uno 123 9 cleared = Some s' \<and> prescaler_of s' = Some 1
            \<and> spec_prescaler 123 = Some 1)"
proof -
  have h: "24 \<le> dbl_digits uno" by (simp add: uno_def)
  have a: "(1 :: u32) \<le> 122" "(122 :: u32) \<le> 8000000" by simp_all
  have b: "(1 :: u32) \<le> 123" "(123 :: u32) \<le> 8000000" by simp_all
  from C1_setFrequency_prescaler [OF h a, of 9 cleared]
    C1_setFrequency_prescaler [OF h b, of 9 cleared] h a b
  show ?thesis by simp
qed

text \<open>
  C2, as amended: for every frequency in \<open>[1, 8000000]\<close>, \<open>setFrequency\<close> writes the
  compare value \<open>round (clockBase / prescaler / freq) - 1\<close>, which lies in
  \<open>[0, 65535]\<close>; and the period read back from the registers (in microseconds)
  differs from the requested period \<open>1000000 / freq\<close> by at most half the step of the
  chosen prescaler (\<open>prescaler / 8\<close> microseconds, that is \<open>prescaler / clockBase\<close>
  seconds). The bound is on the period: the frequency may be off by far more than the
  step.
\<close>

theorem C2_setFrequency_compare:
  assumes "24 \<le> dbl_digits t" "1 \<le> freq" "freq \<le> 8000000"
  shows "\<exists>s' d per. setFrequency t freq pin s = Some s' \<and> prescaler_of s' = Some d
           \<and> uint (OCR1A s') = spec_compare d (unat freq)
           \<and> 0 \<le> spec_compare d (unat freq) \<and> spec_compare d (unat freq) \<le> 65535
           \<and> getPeriodFromRegisters t s' = Some (Fin per)
           \<and> \<bar>per - 1000000 / rat_of_nat (unat freq)\<bar> \<le> rat_of_int d / 8 / 2"
proof -
  consider "123 \<le> freq" | "16 \<le> freq" "freq < 123" | "2 \<le> freq" "freq < 16" | "freq < 2"
    by (meson not_le)
  then show ?thesis
  proof cases
    case 1
    then have f: "123 \<le> unat freq" "unat freq \<le> 8000000"
      using assms(3) by (simp_all add: word_le_nat_alt)
    define s' where "s' = s\<lparr>TCCR1A := (if pin = 10 then push_bit (COM1B0 t) 1
                        else if pin = 9 then push_bit (COM1A0 t) 1 else 0),
            TCCR1B := 0b00001001,
            OCR1A := word_of_int (round (rat_of_nat 8000000 / rat_of_nat (unat freq)) - 1),
            TIMSK1 := 0\<rparr>"
    have e: "setFrequency t freq pin s = Some s'"
      by (simp add: setFrequency_pre1 [OF assms(1) 1 assms(3)] s'_def)
    have pr: "prescaler_of s' = Some 1" by (simp add: s'_def prescaler_of_simps)
    have "OCR1A s' = word_of_int (round (rat_of_nat 8000000 / rat_of_nat (unat freq)) - 1)"
      by (simp add: s'_def)
    from freq_path_core [OF assms(1) _ _ _ _ _ _ pr this] f
    have "uint (OCR1A s') = spec_compare 1 (unat freq) \<and> 0 \<le> spec_compare 1 (unat freq)
       \<and> spec_compare 1 (unat freq) \<le> 65535
       \<and> (\<exists>per. getPeriodFromRegisters t s' = Some (Fin per)
              \<and> \<bar>per - 1000000 / rat_of_nat (unat freq)\<bar> \<le> rat_of_int 1 / 8 / 2)"
      by simp
    with e pr show ?thesis by blast
  next
    case 2
    then have f: "16 \<le> unat freq" "unat freq < 123"
      by (simp_all add: word_le_nat_alt word_less_nat_alt)
    define s' where "s' = s\<lparr>TCCR1A := (if pin = 10 then push_bit (COM1B0 t) 1
                        else if pin = 9 then push_bit (COM1A0 t) 1 else 0),
            TCCR1B := 0b00001010,
            OCR1A := word_of_int (round (rat_of_nat 1000000 / rat_of_nat (unat freq)) - 1),
            TIMSK1 := 0\<rparr>"
    have e: "setFrequency t freq pin s = Some s'"
      by (simp add: setFrequency_pre8 [OF assms(1) 2] s'_def)
    have pr: "prescaler_of s' = Some 8" by (simp add: s'_def prescaler_of_simps)
    have "OCR1A s' = word_of_int (round (rat_of_nat 1000000 / rat_of_nat (unat freq)) - 1)"
      by (simp add: s'_def)
    from freq_path_core [OF assms(1) _ _ _ _ _ _ pr this] f
    have "uint (OCR1A s') = spec_compare 8 (unat freq) \<and> 0 \<le> spec_compare 8 (unat freq)
       \<and> spec_compare 8 (unat freq) \<le> 65535
       \<and> (\<exists>per. getPeriodFromRegisters t s' = Some (Fin per)
              \<and> \<bar>per - 1000000 / rat_of_nat (unat freq)\<bar> \<le> rat_of_int 8 / 8 / 2)"
      by simp
    with e pr show ?thesis by blast
  next
    case 3
    then have f: "2 \<le> unat freq" "unat freq < 16"
      by (simp_all add: word_le_nat_alt word_less_nat_alt)
    define s' where "s' = s\<lparr>TCCR1A := (if pin = 10 then push_bit (COM1B0 t) 1
                        else if pin = 9 then push_bit (COM1A0 t) 1 else 0),
            TCCR1B := 0b00001011,
            OCR1A := word_of_int (round (rat_of_nat 125000 / rat_of_nat (unat freq)) - 1),
            TIMSK1 := 0\<rparr>"
    have e: "setFrequency t freq pin s = Some s'"
      by (simp add: setFrequency_pre64 [OF assms(1) 3] s'_def)
    have pr: "prescaler_of s' = Some 64" by (simp add: s'_def prescaler_of_simps)
    have "OCR1A s' = word_of_int (round (rat_of_nat 125000 / rat_of_nat (unat freq)) - 1)"
      by (simp add: s'_def)
    from freq_path_core [OF assms(1) _ _ _ _ _ _ pr this] f
    have "uint (OCR1A s') = spec_compare 64 (unat freq) \<and> 0 \<le> spec_compare 64 (unat freq)
       \<and> spec_compare 64 (unat freq) \<le> 65535
       \<and> (\<exists>per. getPeriodFromRegisters t s' = Some (Fin per)
              \<and> \<bar>per - 1000000 / rat_of_nat (unat freq)\<bar> \<le> rat_of_int 64 / 8 / 2)"
      by simp
    with e pr show ?thesis by blast
  next
    case 4
    then have f: "1 \<le> unat freq" "unat freq < 2"
      using assms(2) by (simp_all add: word_le_nat_alt word_less_nat_alt)
    define s' where "s' = s\<lparr>TCCR1A := (if pin = 10 then push_bit (COM1B0 t) 1
                        else if pin = 9 then push_bit (COM1A0 t) 1 else 0),
            TCCR1B := 0b00001100,
            OCR1A := word_of_int (round (rat_of_nat 31250 / rat_of_nat (unat freq)) - 1),
            TIMSK1 := 0\<rparr>"
    have e: "setFrequency t freq pin s = Some s'"
      by (simp add: setFrequency_pre256 [OF assms(1,2) 4] s'_def)
    have pr: "prescaler_of s' = Some 256" by (simp add: s'_def prescaler_of_simps)
    have "OCR1A s' = word_of_int (round (rat_of_nat 31250 / rat_of_nat (unat freq)) - 1)"
      by (simp add: s'_def)
    from freq_path_core [OF assms(1) _ _ _ _ _ _ pr this] f
    have "uint (OCR1A s') = spec_compare 256 (unat freq) \<and> 0 \<le> spec_compare 256 (unat freq)
       \<and> spec_compare 256 (unat freq) \<le> 65535
       \<and> (\<exists>per. getPeriodFromRegisters t s' = Some (Fin per)
              \<and> \<bar>per - 1000000 / rat_of_nat (unat freq)\<bar> \<le> rat_of_int 256 / 8 / 2)"
      by simp
    with e pr show ?thesis by blast
  qed
qed

theorem C2_witness:
  "24 \<le> dbl_digits uno \<and> (1 :: u32) \<le> 5000000 \<and> (5000000 :: u32) \<le> 8000000
   \<and> (\<exists>s' d per. setFrequency uno 5000000 9 cleared = Some s' \<and> prescaler_of s' = Some d
           \<and> uint (OCR1A s') = spec_compare d (unat (5000000 :: u32))
           \<and> 0 \<le> spec_compare d (unat (5000000 :: u32))
           \<and> spec_compare d (unat (5000000 :: u32)) \<le> 65535
           \<and> getPeriodFromRegisters uno s' = Some (Fin per)
           \<and> \<bar>per - 1000000 / rat_of_nat (unat (5000000 :: u32))\<bar> \<le> rat_of_int d / 8 / 2)"
proof -
  have a: "(1 :: u32) \<le> 5000000" "(5000000 :: u32) \<le> 8000000" by simp_all
  from C2_setFrequency_compare [OF uno_digits a, of 9 cleared] uno_digits a
  show ?thesis by blast
qed

text \<open>
  The claim C2 as stated fails: for 5000000 Hz the prescaler is 1 and the frequency
  read back is 4000000 Hz, a million times the step away from the request.
\<close>

theorem C2_counterexample:
  "Option.bind (setFrequency uno 5000000 9 cleared) prescaler_of = Some 1
   \<and> Option.bind (setFrequency uno 5000000 9 cleared) (getFrequencyFromRegisters uno)
       = Some (Fin 4000000)
   \<and> \<not> spec_frequency_bound uno 5000000 9 cleared"
proof -
  define s' where "s' = cleared\<lparr>TCCR1A := push_bit (COM1A0 uno) 1,
            TCCR1B := 0b00001001, OCR1A := 1, TIMSK1 := 0\<rparr>"
  have a: "(123 :: u32) \<le> 5000000" "(5000000 :: u32) \<le> 8000000" by simp_all
  have r: "round (8 / 5 :: rat) = 2"
    by (simp add: round_def floor_eq_iff)
  have e: "setFrequency uno 5000000 9 cleared = Some s'"
    by (simp add: setFrequency_pre1 [OF uno_digits a] r s'_def)
  have pr: "prescaler_of s' = Some 1"
    by (simp add: s'_def prescaler_of_simps)
  have "getFrequencyFromRegisters uno s'
        = Some (Fin (fl (dbl_digits uno) (8000000 / (rat_of_nat (unat (OCR1A s')) + 1)) / of_int 1))"
    using uno_digits pr by (rule getFrequency_value) simp
  then have g: "getFrequencyFromRegisters uno s' = Some (Fin 4000000)"
    by (simp add: s'_def fl_numeral_small [OF uno_digits])
  show ?thesis
    by (simp add: spec_frequency_bound_def e pr g)
qed

text \<open>
  C3: for every period in \<open>[1, 8000000]\<close>, \<open>setPeriod\<close> starts from prescaler 8 and
  raises it to 64 when \<open>period > 65536\<close>, to 256 when \<open>period > 524288\<close> and to 1024
  when \<open>period > 2097152\<close>, a later check overriding an earlier one. The instances
  after it give the boundary: 65536 keeps prescaler 8, 65537 selects 64.
\<close>

theorem C3_setPeriod_prescaler:
  assumes "1 \<le> period" "period \<le> 8000000"
  shows "TCCR1B (setPeriod t period pin s) =
           (if period > 2097152 then 0b00001101 else if period > 524288 then 0b00001100
            else if period > 65536 then 0b00001011 else 0b00001010)
       \<and> prescaler_of (setPeriod t period pin s) =
           Some (if period > 2097152 then 1024 else if period > 524288 then 256
                 else if period > 65536 then 64 else 8)"
proof -
  consider "period \<le> 65536" | "65536 < period" "period \<le> 524288"
    | "524288 < period" "period \<le> 2097152" | "2097152 < period"
    by (meson not_le)
  then show ?thesis
  proof cases
    case 1
    then have "\<not> period > 65536" "\<not> period > 524288" "\<not> period > 2097152"
      by (auto simp add: word_le_nat_alt word_less_nat_alt)
    then show ?thesis
      by (simp add: setPeriod_pre8 [OF assms(1) 1] prescaler_of_simps)
  next
    case 2
    then have "period > 65536" "\<not> period > 524288" "\<not> period > 2097152"
      by (auto simp add: word_le_nat_alt word_less_nat_alt)
    then show ?thesis
      by (simp add: setPeriod_pre64 [OF 2] prescaler_of_simps)
  next
    case 3
    then have "period > 65536" "period > 524288" "\<not> period > 2097152"
      by (auto simp add: word_le_nat_alt word_less_nat_alt)
    then show ?thesis
      by (simp add: setPeriod_pre256 [OF 3] prescaler_of_simps)
  next
    case 4
    then have "period > 65536" "period > 524288" "period > 2097152"
      by (auto simp add: word_le_nat_alt word_less_nat_alt)
    then show ?thesis
      by (simp add: setPeriod_pre1024 [OF 4] prescaler_of_simps)
  qed
qed

theorem C3_witness:
  "(1 :: u32) \<le> 65536 \<and> (65536 :: u32) \<le> 8000000
   \<and> prescaler_of (setPeriod uno 65536 9 cleared) = Some 8
   \<and> (1 :: u32) \<le> 65537 \<and> (65537 :: u32) \<le> 8000000
   \<and> prescaler_of (setPeriod uno 65537 9 cleared) = Some 64"
proof -
  have a: "(1 :: u32) \<le> 65536" "(65536 :: u32) \<le> 8000000" by simp_all
  have b: "(1 :: u32) \<le> 65537" "(65537 :: u32) \<le> 8000000" by simp_all
  from C3_setPeriod_prescaler [OF a, of uno 9 cleared] C3_setPeriod_prescaler [OF b, of uno 9 cleared] a b
  show ?thesis by simp
qed

text \<open>
  C4: for every period in \<open>[1, 8000000]\<close>, \<open>setPeriod\<close> writes the compare value
  \<open>period * 8 / prescaler - 1\<close>, computed with truncating integer division; the 32-bit
  computation does not wrap and its result lies in \<open>[0, 65535]\<close>, so that the 16-bit
  register holds exactly that value. The instance after it is a period (65543) at
  which truncation and rounding to nearest differ.
\<close>

theorem C4_setPeriod_compare:
  assumes "1 \<le> period" "period \<le> 8000000"
  shows "\<exists>d. prescaler_of (setPeriod t period pin s) = Some d
           \<and> OCR1A (setPeriod t period pin s) = ucast (period * 8 div word_of_int d - 1)
           \<and> uint (OCR1A (setPeriod t period pin s)) = uint period * 8 div d - 1
           \<and> 0 \<le> uint period * 8 div d - 1 \<and> uint period * 8 div d - 1 \<le> 65535"
proof -
  have f: "1 \<le> unat period" "unat period \<le> 8000000"
    using assms by (simp_all add: word_le_nat_alt)
  then have m: "unat period * 8 < 4294967296" by simp
  consider "period \<le> 65536" | "65536 < period" "period \<le> 524288"
    | "524288 < period" "period \<le> 2097152" | "2097152 < period"
    by (meson not_le)
  then show ?thesis
  proof cases
    case 1
    then have g: "unat period \<le> 65536" by (simp add: word_le_nat_alt)
    have e: "setPeriod t period pin s = s\<lparr>TCCR1A := (if pin = 10 then push_bit (COM1B0 t) 1
                  else if pin = 9 then push_bit (COM1A0 t) 1 else 0),
      TCCR1B := 0b00001010, OCR1A := ucast (period * 8 div 8 - 1), TIMSK1 := 0\<rparr>"
      using assms(1) 1 by (rule setPeriod_pre8)
    have "prescaler_of (setPeriod t period pin s) = Some 8"
      by (simp add: e prescaler_of_simps)
    moreover have "OCR1A (setPeriod t period pin s) = ucast (period * 8 div word_of_int 8 - 1)"
      by (simp add: e)
    moreover note period_ocr_int [OF f(1) m, of 8]
    ultimately show ?thesis using f g by (intro exI [of _ 8]) (simp add: e)
  next
    case 2
    then have g: "65536 < unat period" "unat period \<le> 524288"
      by (simp_all add: word_le_nat_alt word_less_nat_alt)
    have e: "setPeriod t period pin s = s\<lparr>TCCR1A := (if pin = 10 then push_bit (COM1B0 t) 1
                  else if pin = 9 then push_bit (COM1A0 t) 1 else 0),
      TCCR1B := 0b00001011, OCR1A := ucast (period * 8 div 64 - 1), TIMSK1 := 0\<rparr>"
      using 2 by (rule setPeriod_pre64)
    have "prescaler_of (setPeriod t period pin s) = Some 64"
      by (simp add: e prescaler_of_simps)
    moreover have "OCR1A (setPeriod t period pin s) = ucast (period * 8 div word_of_int 64 - 1)"
      by (simp add: e)
    moreover note period_ocr_int [OF f(1) m, of 64]
    ultimately show ?thesis using f g by (intro exI [of _ 64]) (simp add: e)
  next
    case 3
    then have g: "524288 < unat period" "unat period \<le> 2097152"
      by (simp_all add: word_le_nat_alt word_less_nat_alt)
    have e: "setPeriod t period pin s = s\<lparr>TCCR1A := (if pin = 10 then push_bit (COM1B0 t) 1
                  else if pin = 9 then push_bit (COM1A0 t) 1 else 0),
      TCCR1B := 0b00001100, OCR1A := ucast (period * 8 div 256 - 1), TIMSK1 := 0\<rparr>"
      using 3 by (rule setPeriod_pre256)
    have "prescaler_of (setPeriod t period pin s) = Some 256"
      by (simp add: e prescaler_of_simps)
    moreover have "OCR1A (setPeriod t period pin s) = ucast (period * 8 div word_of_int 256 - 1)"
      by (simp add: e)
    moreover note period_ocr_int [OF f(1) m, of 256]
    ultimately show ?thesis using f g by (intro exI [of _ 256]) (simp add: e)
  next
    case 4
    then have g: "2097152 < unat period"
      by (simp_all add: word_le_nat_alt word_less_nat_alt)
    have e: "setPeriod t period pin s = s\<lparr>TCCR1A := (if pin = 10 then push_bit (COM1B0 t) 1
                  else if pin = 9 then push_bit (COM1A0 t) 1 else 0),
      TCCR1B := 0b00001101, OCR1A := ucast (period * 8 div 1024 - 1), TIMSK1 := 0\<rparr>"
      using 4 by (rule setPeriod_pre1024)
    have "prescaler_of (setPeriod t period pin s) = Some 1024"
      by (simp add: e prescaler_of_simps)
    moreover have "OCR1A (setPeriod t period pin s) = ucast (period * 8 div word_of_int 1024 - 1)"
      by (simp add: e)
    moreover note period_ocr_int [OF f(1) m, of 1024]
    ultimately show ?thesis using f g by (intro exI [of _ 1024]) (simp add: e)
  qed
qed

theorem C4_witness:
  "(1 :: u32) \<le> 65543 \<and> (65543 :: u32) \<le> 8000000
   \<and> (\<exists>d. prescaler_of (setPeriod uno 65543 9 cleared) = Some d
           \<and> OCR1A (setPeriod uno 65543 9 cleared) = ucast (65543 * 8 div word_of_int d - 1 :: u32)
           \<and> uint (OCR1A (setPeriod uno 65543 9 cleared)) = uint (65543 :: u32) * 8 div d - 1
           \<and> 0 \<le> uint (65543 :: u32) * 8 div d - 1 \<and> uint (65543 :: u32) * 8 div d - 1 \<le> 65535)
   \<and> OCR1A (setPeriod uno 65543 9 cleared) = 8191
   \<and> round (65543 * 8 / 64 :: rat) - 1 = 8192"
proof -
  have a: "(1 :: u32) \<le> 65543" "(65543 :: u32) \<le> 8000000" by simp_all
  have b: "(65536 :: u32) < 65543" "(65543 :: u32) \<le> 524288" by simp_all
  have "OCR1A (setPeriod uno 65543 9 cleared) = 8191"
    by (simp add: setPeriod_pre64 [OF b])
  moreover have "round (65543 * 8 / 64 :: rat) - 1 = 8192"
    by (simp add: round_def floor_eq_iff)
  ultimately show ?thesis
    using C4_setPeriod_compare [OF a, of uno 9 cleared] a by blast
qed

text \<open>
  C5, as amended: for every state whose prescaler bits select one of 1, 8, 64, 256,
  1024, the product of \<open>getFrequencyFromRegisters\<close> (in Hz) and
  \<open>getPeriodFromRegisters\<close> (in microseconds) is 1000000, up to the relative rounding
  error \<open>2^-p\<close> of the one inexact division.
\<close>

theorem C5_readback_product:
  assumes "24 \<le> dbl_digits t" "prescaler_of s = Some d" "d \<in> {1, 8, 64, 256, 1024}"
  shows "\<exists>q. readback_product t s = Some q \<and> \<bar>q - 1000000\<bar> \<le> 1000000 / 2 ^ dbl_digits t"
proof -
  define n :: rat where "n = rat_of_nat (unat (OCR1A s)) + 1"
  define y where "y = 8000000 / n"
  define p where "p = dbl_digits t"
  have n0: "0 < n" using unsigned_rat_nonneg [of "OCR1A s"] by (simp add: n_def add_pos_nonneg)
  have y0: "0 < y" using n0 by (simp add: y_def)
  have d0: "0 < rat_of_int d" using assms(3) by auto
  have fe: "getFrequencyFromRegisters t s = Some (Fin (fl p y / of_int d))"
    using getFrequency_value [OF assms] by (simp add: n_def y_def p_def)
  have pe: "getPeriodFromRegisters t s = Some (Fin (n * of_int d / 8))"
    using getPeriod_exact [OF assms] by (simp add: n_def)
  have q: "readback_product t s = Some (fl p y / of_int d * (n * of_int d / 8))"
    by (simp add: readback_product_def fe pe)
  have "fl p y / of_int d * (n * of_int d / 8) = fl p y * (n / 8)"
    using d0 by simp
  moreover have "1000000 = y * (n / 8)"
    using n0 by (simp add: y_def)
  ultimately have "fl p y / of_int d * (n * of_int d / 8) - 1000000 = (fl p y - y) * (n / 8)"
    by (simp add: algebra_simps)
  moreover have "0 \<le> n / 8" using n0 by simp
  ultimately have "\<bar>fl p y / of_int d * (n * of_int d / 8) - 1000000\<bar> = \<bar>fl p y - y\<bar> * (n / 8)"
    by (simp only: abs_mult abs_of_nonneg)
  also have "\<dots> \<le> y / 2 ^ p * (n / 8)"
    using fl_err [OF y0, of p] n0 by (intro mult_right_mono) simp_all
  also have "\<dots> = 1000000 / 2 ^ p"
    using n0 by (simp add: y_def)
  finally have "\<bar>fl p y / of_int d * (n * of_int d / 8) - 1000000\<bar> \<le> 1000000 / 2 ^ dbl_digits t"
    by (simp only: p_def)
  with q show ?thesis by blast
qed

theorem C5_witness:
  "24 \<le> dbl_digits uno \<and> prescaler_of at_1kHz = Some 1 \<and> (1 :: int) \<in> {1, 8, 64, 256, 1024}
   \<and> (\<exists>q. readback_product uno at_1kHz = Some q
          \<and> \<bar>q - 1000000\<bar> \<le> 1000000 / 2 ^ dbl_digits uno)"
proof -
  have pr: "prescaler_of at_1kHz = Some 1"
    by (simp add: at_1kHz_def prescaler_of_simps)
  have d: "(1 :: int) \<in> {1, 8, 64, 256, 1024}" by simp
  from C5_readback_product [OF uno_digits pr d] uno_digits pr d
  show ?thesis by blast
qed

text \<open>
  The claim C5 as stated fails: at 1000 Hz the product is exactly 1000000, not 1 (the
  period is in microseconds).
\<close>

theorem C5_counterexample:
  "readback_product uno at_1kHz = Some 1000000 \<and> \<not> spec_reciprocal uno at_1kHz (1 / 2)"
proof -
  have pr: "prescaler_of at_1kHz = Some 1"
    by (simp add: at_1kHz_def prescaler_of_simps)
  have "getFrequencyFromRegisters uno at_1kHz
        = Some (Fin (fl (dbl_digits uno) (8000000 / (rat_of_nat (unat (OCR1A at_1kHz)) + 1)) / of_int 1))"
    using uno_digits pr by (rule getFrequency_value) simp
  then have g: "getFrequencyFromRegisters uno at_1kHz = Some (Fin 1000)"
    by (simp add: at_1kHz_def fl_numeral_small [OF uno_digits])
  have "getPeriodFromRegisters uno at_1kHz
        = Some (Fin ((rat_of_nat (unat (OCR1A at_1kHz)) + 1) * of_int 1 / 8))"
    using uno_digits pr by (rule getPeriod_exact) simp
  then have h: "getPeriodFromRegisters uno at_1kHz = Some (Fin 1000)"
    by (simp add: at_1kHz_def)
  have q: "readback_product uno at_1kHz = Some 1000000"
    by (simp add: readback_product_def g h)
  then show ?thesis
    by (simp add: spec_reciprocal_def)
qed

text \<open>
  C6: \<open>setFrequency(1000)\<close> produces prescaler 1 and compare value 7999, and the
  frequency that \<open>getFrequencyFromRegisters\<close> computes from that state is exactly
  1000 Hz. This holds for every \<open>double\<close> of at least 24 significant bits, on either
  pin and from any state.
\<close>

theorem C6_setFrequency_1000:
  assumes "24 \<le> dbl_digits t"
  shows "\<exists>s'. setFrequency t 1000 pin s = Some s'
           \<and> TCCR1B s' = 0b00001001 \<and> prescaler_of s' = Some 1 \<and> OCR1A s' = 7999
           \<and> getFrequencyFromRegisters t s' = Some (Fin 1000)"
proof -
  define s' where "s' = s\<lparr>TCCR1A := (if pin = 10 then push_bit (COM1B0 t) 1
                        else if pin = 9 then push_bit (COM1A0 t) 1 else 0),
            TCCR1B := 0b00001001, OCR1A := 7999, TIMSK1 := 0\<rparr>"
  have r: "round (8000000 / rat_of_nat (unat (1000 :: u32))) = 8000"
    by simp
  have "setFrequency t 1000 pin s = Some s'"
    using setFrequency_pre1 [OF assms, of 1000 pin s]
    by (simp add: r s'_def)
  moreover have "TCCR1B s' = 0b00001001" "OCR1A s' = 7999"
    by (simp_all add: s'_def)
  moreover from this have "prescaler_of s' = Some 1"
    by (simp add: prescaler_of_simps)
  moreover have "getFrequencyFromRegisters t s' = Some (Fin 1000)"
    using assms
    by (simp add: getFrequencyFromRegisters_def s'_def array_read_def pre_def
        dbl_of_nat_small dbl_of_int_def fl_numeral_small)
  ultimately show ?thesis by blast
qed

theorem C6_witness:
  "24 \<le> dbl_digits uno \<and>
   (\<exists>s'. setFrequency uno 1000 9 cleared = Some s'
           \<and> TCCR1B s' = 0b00001001 \<and> prescaler_of s' = Some 1 \<and> OCR1A s' = 7999
           \<and> getFrequencyFromRegisters uno s' = Some (Fin 1000))"
proof -
  have h: "24 \<le> dbl_digits uno" by (simp add: uno_def)
  from C6_setFrequency_1000 [OF h, of 9 cleared] h show ?thesis by blast
qed

text \<open>
  C7: when the value entered is outside \<open>[1, 8000000]\<close> (0 and 8000001 in the
  instances after it), in either input mode, \<open>enterValue\<close> changes nothing but the serial output,
  to which it appends the out-of-range message; the registers, the pin and the mode
  are as before, and the turn of \<open>loop\<close> that dispatched the key completes normally.
\<close>

theorem C7_enterValue_out_of_range:
  assumes "parseLoop (Some 0) inp = Some v" "v < 1 \<or> 8000000 < v"
  shows "enterValue t inp s =
           Some (s\<lparr>serial_out := serial_out s
                   @ [Text ''Value out of range, allowed: 1 .. 8'000'000 (Hz or us)'']\<rparr>)
       \<and> doMenu t CHR ''e'' inp s =
           Some (s\<lparr>serial_out := serial_out s
                   @ [Text CLR_LINE,
                      Text ''Value out of range, allowed: 1 .. 8'000'000 (Hz or us)'']\<rparr>)
       \<and> loop t \<lparr>key = Some CHR ''e'', parsed = inp, millis = m\<rparr> s =
           Some (s\<lparr>serial_out := serial_out s
                   @ [Text CLR_LINE,
                      Text ''Value out of range, allowed: 1 .. 8'000'000 (Hz or us)''],
                   led := (if heartbeatEnabled s then heartbeat m 1000 20 else led s)\<rparr>)"
proof -
  have e: "enterValue t inp x =
           Some (x\<lparr>serial_out := serial_out x
                   @ [Text ''Value out of range, allowed: 1 .. 8'000'000 (Hz or us)'']\<rparr>)" for x
    using assms by (auto simp add: enterValue_def print_def)
  have d: "doMenu t CHR ''e'' inp s =
           Some (s\<lparr>serial_out := serial_out s
                   @ [Text CLR_LINE,
                      Text ''Value out of range, allowed: 1 .. 8'000'000 (Hz or us)'']\<rparr>)"
    by (simp add: doMenu_def find_menu_e e) (simp add: print_def)
  have "loop t \<lparr>key = Some CHR ''e'', parsed = inp, millis = m\<rparr> s =
           Some (s\<lparr>serial_out := serial_out s
                   @ [Text CLR_LINE,
                      Text ''Value out of range, allowed: 1 .. 8'000'000 (Hz or us)''],
                   led := (if heartbeatEnabled s then heartbeat m 1000 20 else led s)\<rparr>)"
    by (simp add: loop_def d)
  with e d show ?thesis by blast
qed

theorem C7_witness:
  "parseLoop (Some 0) [0] = Some 0 \<and> ((0 :: u32) < 1 \<or> 8000000 < (0 :: u32))
   \<and> enterValue uno [0] cleared =
       Some (cleared\<lparr>serial_out := serial_out cleared
               @ [Text ''Value out of range, allowed: 1 .. 8'000'000 (Hz or us)'']\<rparr>)
   \<and> parseLoop (Some 0) [8000001] = Some 8000001
   \<and> ((8000001 :: u32) < 1 \<or> 8000000 < (8000001 :: u32))
   \<and> enterValue uno [8000001] (cleared\<lparr>mode := PERIOD\<rparr>) =
       Some (cleared\<lparr>mode := PERIOD, serial_out := serial_out (cleared\<lparr>mode := PERIOD\<rparr>)
               @ [Text ''Value out of range, allowed: 1 .. 8'000'000 (Hz or us)'']\<rparr>)"
proof -
  have a: "parseLoop (Some 0) [0] = Some 0" "(0 :: u32) < 1 \<or> 8000000 < (0 :: u32)"
    by simp_all
  have b: "parseLoop (Some 0) [8000001] = Some 8000001"
    "(8000001 :: u32) < 1 \<or> 8000000 < (8000001 :: u32)"
    by simp_all
  from C7_enterValue_out_of_range [OF a, of uno cleared 0]
    C7_enterValue_out_of_range [OF b, of uno "cleared\<lparr>mode := PERIOD\<rparr>" 0] a b
  show ?thesis by simp
qed

text \<open>
  C8, as amended: when the last value \<open>parseInt\<close> returned is 0 (what it returns for
  input without digits), \<open>enterValue\<close> and \<open>setPrescaler\<close> reject it with their
  message and change nothing else; \<open>setOCR1A\<close> accepts it, since 0 lies in its range
  \<open>[0, 65535]\<close>: it writes 0 to \<open>OCR1A\<close> and prints the register settings.
\<close>

theorem C8_parsed_zero:
  assumes "inp \<noteq> []" "last inp = 0"
  shows "enterValue t inp s =
           Some (s\<lparr>serial_out := serial_out s
                   @ [Text ''Value out of range, allowed: 1 .. 8'000'000 (Hz or us)'']\<rparr>)
       \<and> setPrescaler t inp s =
           Some (s\<lparr>serial_out := serial_out s
                   @ [Text (''Value out of range, allowed: 1 .. 5 '' @ [CHR 0x0D, CHR 0x0A])]\<rparr>)
       \<and> setOCR1A t inp s = printRegisterSettings t (s\<lparr>OCR1A := 0\<rparr>)
       \<and> (\<forall>d. prescaler_of s = Some d \<longrightarrow>
             (\<exists>fr pe. setOCR1A t inp s =
                Some (s\<lparr>OCR1A := 0, serial_out := serial_out s @ [Settings fr pe d 0]\<rparr>)))"
proof -
  have p: "parseLoop v inp = Some 0" for v
    using assms by (simp add: parseLoop_last)
  have 1: "enterValue t inp s =
           Some (s\<lparr>serial_out := serial_out s
                   @ [Text ''Value out of range, allowed: 1 .. 8'000'000 (Hz or us)'']\<rparr>)"
    by (simp add: enterValue_def p print_def)
  have 2: "setPrescaler t inp s =
           Some (s\<lparr>serial_out := serial_out s
                   @ [Text (''Value out of range, allowed: 1 .. 5 '' @ [CHR 0x0D, CHR 0x0A])]\<rparr>)"
    by (simp add: setPrescaler_def p println_def print_def word_sless_alt)
  have 3: "setOCR1A t inp s = printRegisterSettings t (s\<lparr>OCR1A := 0\<rparr>)"
    by (simp add: setOCR1A_def p word_sless_alt)
  have 4: "\<exists>fr pe. setOCR1A t inp s =
                Some (s\<lparr>OCR1A := 0, serial_out := serial_out s @ [Settings fr pe d 0]\<rparr>)"
    if "prescaler_of s = Some d" for d
  proof -
    from that have "array_read pre (unat (ucast (TCCR1B s AND 0b00000111) :: u16)) = Some d"
      by (rule prescaler_of_SomeD)
    then show ?thesis
      unfolding 3 printRegisterSettings_def Let_def by (intro exI) simp
  qed
  from 1 2 3 4 show ?thesis by blast
qed

theorem C8_witness:
  "[0 :: u32] \<noteq> [] \<and> last [0 :: u32] = 0
   \<and> enterValue uno [0] at_1kHz =
       Some (at_1kHz\<lparr>serial_out := serial_out at_1kHz
               @ [Text ''Value out of range, allowed: 1 .. 8'000'000 (Hz or us)'']\<rparr>)
   \<and> setPrescaler uno [0] at_1kHz =
       Some (at_1kHz\<lparr>serial_out := serial_out at_1kHz
               @ [Text (''Value out of range, allowed: 1 .. 5 '' @ [CHR 0x0D, CHR 0x0A])]\<rparr>)
   \<and> setOCR1A uno [0] at_1kHz = printRegisterSettings uno (at_1kHz\<lparr>OCR1A := 0\<rparr>)"
proof -
  have a: "[0 :: u32] \<noteq> []" "last [0 :: u32] = 0" by simp_all
  from C8_parsed_zero [OF a, of uno at_1kHz] a show ?thesis by blast
qed

text \<open>
  The claim C8 as stated fails for \<open>setOCR1A\<close>: from the state at 1000 Hz, a parsed 0
  changes \<open>OCR1A\<close> from 7999 to 0 and no rejection message is printed.
\<close>

theorem C8_counterexample:
  "OCR1A at_1kHz = 7999
   \<and> map_option OCR1A (setOCR1A uno [0] at_1kHz) = Some 0
   \<and> setOCR1A uno [0] at_1kHz \<noteq>
       Some (at_1kHz\<lparr>serial_out := serial_out at_1kHz
               @ [Text (''Value out of range, allowed: 0 .. 65535 '' @ [CHR 0x0D, CHR 0x0A])]\<rparr>)"
proof -
  have "array_read pre (unat (ucast (TCCR1B (at_1kHz\<lparr>OCR1A := 0\<rparr>) AND 0b00000111) :: u16)) = Some 1"
    by (simp add: at_1kHz_def array_read_def pre_def)
  then obtain fr pe where
    "printRegisterSettings uno (at_1kHz\<lparr>OCR1A := 0\<rparr>)
      = Some (at_1kHz\<lparr>OCR1A := 0, serial_out := serial_out at_1kHz @ [Settings fr pe 1 0]\<rparr>)"
    unfolding printRegisterSettings_def Let_def by simp
  moreover have "setOCR1A uno [0] at_1kHz = printRegisterSettings uno (at_1kHz\<lparr>OCR1A := 0\<rparr>)"
    by (simp add: setOCR1A_def word_sless_alt)
  ultimately have e: "setOCR1A uno [0] at_1kHz
      = Some (at_1kHz\<lparr>OCR1A := 0, serial_out := serial_out at_1kHz @ [Settings fr pe 1 0]\<rparr>)"
    by simp
  have "OCR1A at_1kHz = 7999" by (simp add: at_1kHz_def)
  moreover have "map_option OCR1A (setOCR1A uno [0] at_1kHz) = Some 0"
    by (simp add: e)
  moreover have "setOCR1A uno [0] at_1kHz \<noteq>
       Some (at_1kHz\<lparr>serial_out := serial_out at_1kHz
               @ [Text (''Value out of range, allowed: 0 .. 65535 '' @ [CHR 0x0D, CHR 0x0A])]\<rparr>)"
  proof
    assume "setOCR1A uno [0] at_1kHz =
       Some (at_1kHz\<lparr>serial_out := serial_out at_1kHz
               @ [Text (''Value out of range, allowed: 0 .. 65535 '' @ [CHR 0x0D, CHR 0x0A])]\<rparr>)"
    with e have "at_1kHz\<lparr>OCR1A := 0, serial_out := serial_out at_1kHz @ [Settings fr pe 1 0]\<rparr>
        = at_1kHz\<lparr>serial_out := serial_out at_1kHz
               @ [Text (''Value out of range, allowed: 0 .. 65535 '' @ [CHR 0x0D, CHR 0x0A])]\<rparr>"
      by simp
    then have "OCR1A (at_1kHz\<lparr>OCR1A := 0, serial_out := serial_out at_1kHz @ [Settings fr pe 1 0]\<rparr>)
        = OCR1A (at_1kHz\<lparr>serial_out := serial_out at_1kHz
               @ [Text (''Value out of range, allowed: 0 .. 65535 '' @ [CHR 0x0D, CHR 0x0A])]\<rparr>)"
      by (rule arg_cong)
    then show False by (simp add: at_1kHz_def)
  qed
  ultimately show ?thesis by blast
qed

text \<open>
  C9: in every reachable state, toggling the output pin twice restores the pin and the
  compare-output bits of \<open>TCCR1A\<close>. A single toggle selects the other pin and writes
  to \<open>TCCR1A\<close> the compare-output bit of the new pin alone, so that the bit of the
  previous pin is cleared and no bit of \<open>TCCR1A\<close> other than the two compare-output
  bits changes; it appends its message to the serial output and changes nothing else:
  \<open>TCCR1B\<close> (the prescaler), \<open>OCR1A\<close> (the compare value) and \<open>TIMSK1\<close> are as they
  were.
\<close>

theorem C9_toggleOutputPin:
  assumes "reachable t s"
  shows "pinOut (toggleOutputPin t (toggleOutputPin t s)) = pinOut s
       \<and> TCCR1A (toggleOutputPin t (toggleOutputPin t s)) = TCCR1A s
       \<and> pinOut (toggleOutputPin t s) \<noteq> pinOut s
       \<and> TCCR1B (toggleOutputPin t s) = TCCR1B s
       \<and> OCR1A (toggleOutputPin t s) = OCR1A s
       \<and> TIMSK1 (toggleOutputPin t s) = TIMSK1 s
       \<and> prescaler_of (toggleOutputPin t s) = prescaler_of s
       \<and> pinOut (toggleOutputPin t s) = (if pinOut s = 9 then 10 else 9)
       \<and> TCCR1A s = (if pinOut s = 9 then push_bit (COM1A0 t) 1 else push_bit (COM1B0 t) 1)
       \<and> TCCR1A (toggleOutputPin t s) =
           (if pinOut s = 9 then push_bit (COM1B0 t) 1 else push_bit (COM1A0 t) 1)
       \<and> (\<forall>n. n \<noteq> COM1A0 t \<and> n \<noteq> COM1B0 t \<longrightarrow>
              bit (TCCR1A (toggleOutputPin t s)) n = bit (TCCR1A s) n)
       \<and> toggleOutputPin t s =
           s\<lparr>TCCR1A := (if pinOut s = 9 then push_bit (COM1B0 t) 1 else push_bit (COM1A0 t) 1),
             pinOut := (if pinOut s = 9 then 10 else 9),
             serial_out := serial_out s
               @ [Text (if pinOut s = 9 then ''Output pin set to 10''
                        else ''Output pin set to 9'')]\<rparr>"
proof -
  from assms have w: "wired t s" by (rule reachable_wired)
  then have pin: "pinOut s = 9 \<or> pinOut s = 10" by (auto simp: wired_def)
  have old: "TCCR1A s = (if pinOut s = 9 then push_bit (COM1A0 t) 1 else push_bit (COM1B0 t) 1)"
    using w by (auto simp: wired_def)
  have eq: "toggleOutputPin t s =
           s\<lparr>TCCR1A := (if pinOut s = 9 then push_bit (COM1B0 t) 1 else push_bit (COM1A0 t) 1),
             pinOut := (if pinOut s = 9 then 10 else 9),
             serial_out := serial_out s
               @ [Text (if pinOut s = 9 then ''Output pin set to 10''
                        else ''Output pin set to 9'')]\<rparr>"
    by (simp add: toggleOutputPin_def Let_def print_def)
  have new: "TCCR1A (toggleOutputPin t s) =
           (if pinOut s = 9 then push_bit (COM1B0 t) 1 else push_bit (COM1A0 t) 1)"
    by (simp add: eq)
  have bits: "bit (TCCR1A (toggleOutputPin t s)) n = bit (TCCR1A s) n"
    if "n \<noteq> COM1A0 t \<and> n \<noteq> COM1B0 t" for n
    using that by (auto simp add: new old bit_exp_iff)
  have rest: "pinOut (toggleOutputPin t (toggleOutputPin t s)) = pinOut s
       \<and> TCCR1A (toggleOutputPin t (toggleOutputPin t s)) = TCCR1A s
       \<and> pinOut (toggleOutputPin t s) \<noteq> pinOut s
       \<and> TCCR1B (toggleOutputPin t s) = TCCR1B s
       \<and> OCR1A (toggleOutputPin t s) = OCR1A s
       \<and> TIMSK1 (toggleOutputPin t s) = TIMSK1 s
       \<and> prescaler_of (toggleOutputPin t s) = prescaler_of s"
    using w by (auto simp add: wired_def toggleOutputPin_def Let_def prescaler_of_def)
  have p: "pinOut (toggleOutputPin t s) = (if pinOut s = 9 then 10 else 9)"
    by (simp add: eq)
  from rest p old new bits eq show ?thesis by blast
qed

theorem C9_witness:
  "reachable uno (showMenu at_1kHz)
   \<and> pinOut (toggleOutputPin uno (toggleOutputPin uno (showMenu at_1kHz))) = pinOut (showMenu at_1kHz)
   \<and> TCCR1A (toggleOutputPin uno (toggleOutputPin uno (showMenu at_1kHz))) = TCCR1A (showMenu at_1kHz)
   \<and> pinOut (toggleOutputPin uno (showMenu at_1kHz)) \<noteq> pinOut (showMenu at_1kHz)
   \<and> TCCR1B (toggleOutputPin uno (showMenu at_1kHz)) = TCCR1B (showMenu at_1kHz)
   \<and> OCR1A (toggleOutputPin uno (showMenu at_1kHz)) = OCR1A (showMenu at_1kHz)
   \<and> TIMSK1 (toggleOutputPin uno (showMenu at_1kHz)) = TIMSK1 (showMenu at_1kHz)
   \<and> prescaler_of (toggleOutputPin uno (showMenu at_1kHz)) = prescaler_of (showMenu at_1kHz)
   \<and> pinOut (showMenu at_1kHz) = 9 \<and> TCCR1A (showMenu at_1kHz) = 64
   \<and> pinOut (toggleOutputPin uno (showMenu at_1kHz)) = 10
   \<and> TCCR1A (toggleOutputPin uno (showMenu at_1kHz)) = 16"
proof -
  have a: "(123 :: u32) \<le> 1000" "(1000 :: u32) \<le> 8000000" by simp_all
  have "setFrequency uno 1000 9 (globals_init cleared) =
    Some ((globals_init cleared)\<lparr>TCCR1A := (if (9 :: u8) = 10 then push_bit (COM1B0 uno) 1
                        else if (9 :: u8) = 9 then push_bit (COM1A0 uno) 1 else 0),
            TCCR1B := 0b00001001,
            OCR1A := word_of_int (round (8000000 / rat_of_nat (unat (1000 :: u32))) - 1),
            TIMSK1 := 0\<rparr>)"
    using uno_digits a by (rule setFrequency_pre1)
  then have "setFrequency uno 1000 9 (globals_init cleared) = Some at_1kHz"
    by (simp add: globals_init_def cleared_def at_1kHz_def uno_def)
  then have "setup_prog uno (globals_init cleared) = Some (showMenu at_1kHz)"
    by (simp add: setup_prog_def globals_init_def cleared_def)
  then have r: "reachable uno (showMenu at_1kHz)" by (rule reachable.boot)
  have v: "pinOut (showMenu at_1kHz) = 9" "TCCR1A (showMenu at_1kHz) = 64"
    "push_bit (COM1B0 uno) (1 :: u8) = 16"
    by (simp_all add: showMenu_def menu_def Let_def at_1kHz_def uno_def)
  note c = C9_toggleOutputPin [OF r]
  from c have "pinOut (toggleOutputPin uno (showMenu at_1kHz))
      = (if pinOut (showMenu at_1kHz) = 9 then 10 else 9)"
    by blast
  then have p1: "pinOut (toggleOutputPin uno (showMenu at_1kHz)) = 10"
    by (simp add: v(1))
  from c have "TCCR1A (toggleOutputPin uno (showMenu at_1kHz))
      = (if pinOut (showMenu at_1kHz) = 9 then push_bit (COM1B0 uno) 1
         else push_bit (COM1A0 uno) 1)"
    by blast
  then have a1: "TCCR1A (toggleOutputPin uno (showMenu at_1kHz)) = 16"
    using v(3) by (simp add: v(1))
  from c r v(1,2) p1 a1 show ?thesis by blast
qed

text \<open>
  C10: \<open>setPeriod\<close> applied to 0 forces prescaler 1; the compare count
  \<open>0 * 8 / 1 - 1\<close> wraps around in unsigned 32-bit arithmetic to \<open>0xFFFFFFFF\<close>, and the
  16-bit compare register is written as 65535.
\<close>

theorem C10_setPeriod_zero:
  "TCCR1B (setPeriod t 0 pin s) = 0b00001001
   \<and> prescaler_of (setPeriod t 0 pin s) = Some 1
   \<and> (0 * 8 div 1 - 1 :: u32) = 0xFFFFFFFF
   \<and> OCR1A (setPeriod t 0 pin s) = ucast (0 * 8 div 1 - 1 :: u32)
   \<and> OCR1A (setPeriod t 0 pin s) = 65535"
  by (simp add: setPeriod_def Let_def prescaler_of_def array_read_def pre_def
      unsigned_minus_1_eq_mask mask_eq_exp_minus_1)

end
